theory Spec2Isabelle
  imports Complex_Main "HOL-Library.Sublist"
begin

section \<open>Strings\<close>

text \<open>
  File names, labels and queries are HOL strings: the bytes of the UTF-8 form of the
  text. For well-formed text a substring in UTF-16 code units is a substring in these
  bytes and conversely, so \<open>str_includes\<close> is \<open>String.prototype.includes\<close>: the search
  string is tried at every start index, from the left.

  \<open>String.prototype.toLowerCase\<close> belongs to the platform, not to the repository, and
  follows the Unicode case mappings. The functions that call it take it as their first
  argument, written \<open>toLowerCase\<close>, and what is proved of them holds for every such
  function. \<open>asciiLower\<close> folds the letters A to Z onto a to z and nothing else: it is
  what \<open>toLowerCase\<close> does on ASCII text.
\<close>

definition lowerChar :: "char \<Rightarrow> char" where
  "lowerChar c =
     (let n = (of_char c :: nat)
      in if 65 \<le> n \<and> n \<le> 90 then char_of (n + 32) else c)"

definition asciiLower :: "string \<Rightarrow> string" where
  "asciiLower s = map lowerChar s"

primrec str_includes :: "string \<Rightarrow> string \<Rightarrow> bool" where
  "str_includes [] t = (t = [])"
| "str_includes (c # cs) t = (prefix t (c # cs) \<or> str_includes cs t)"

section \<open>The data model\<close>

text \<open>
  The interface \<open>VideoFile\<close>. The fields \<open>id\<close>, \<open>name\<close>, \<open>size\<close> and \<open>type\<close> are
  written \<open>vid\<close>, \<open>vname\<close>, \<open>vsize\<close> and \<open>vtype\<close>. The component state of \<open>Home\<close>
  is the record \<open>app_state\<close>; \<open>revoked\<close> lists the object URLs handed to
  \<open>URL.revokeObjectURL\<close> so far.
\<close>

record VideoFile =
  vid :: string
  vname :: string
  vsize :: nat
  duration :: "string option"
  uploadDate :: nat
  tags :: "string list"
  thumbnail :: "string option"
  url :: string
  vtype :: string

record app_state =
  videos :: "VideoFile list"
  searchQuery :: string
  selectedVideo :: "VideoFile option"
  isUploading :: bool
  agentMessage :: string
  revoked :: "string list"

definition initial :: app_state where
  "initial = \<lparr>videos = [], searchQuery = [], selectedVideo = None, isUploading = False,
     agentMessage = [], revoked = []\<rparr>"

section \<open>Tag inference: generateAutoTags\<close>

text \<open>
  The regular expression \<open>/20\d{2}/\<close>: \<open>yearAt\<close> is an attempt to match at the head
  of the string, \<open>yearMatch\<close> is \<open>filename.match\<close>, which tries every start index from
  the left and gives the text of the first match, or nothing.
\<close>

definition isDigit :: "char \<Rightarrow> bool" where
  "isDigit c = (c \<in> set ''0123456789'')"

fun yearAt :: "string \<Rightarrow> string option" where
  "yearAt (a # b # c # d # rest) =
     (if a = CHR ''2'' \<and> b = CHR ''0'' \<and> isDigit c \<and> isDigit d
      then Some [a, b, c, d] else None)"
| "yearAt s = None"

primrec yearMatch :: "string \<Rightarrow> string option" where
  "yearMatch [] = None"
| "yearMatch (c # cs) =
     (case yearAt (c # cs) of Some y \<Rightarrow> Some y | None \<Rightarrow> yearMatch cs)"

definition push :: "'a list \<Rightarrow> 'a \<Rightarrow> 'a list" where
  "push xs x = xs @ [x]"

definition generateAutoTags :: "(string \<Rightarrow> string) \<Rightarrow> string \<Rightarrow> string list" where
  "generateAutoTags toLowerCase filename =
     (let tags = [];
          lower = toLowerCase filename;
          tags = (if str_includes lower ''tutorial'' \<or> str_includes lower ''how-to''
                  then push tags ''tutorial'' else tags);
          tags = (if str_includes lower ''meeting'' \<or> str_includes lower ''call''
                  then push tags ''meeting'' else tags);
          tags = (if str_includes lower ''presentation'' \<or> str_includes lower ''demo''
                  then push tags ''presentation'' else tags);
          tags = (if str_includes lower ''screen'' \<or> str_includes lower ''recording''
                  then push tags ''screen-recording'' else tags);
          tags = (if str_includes lower ''webinar'' then push tags ''webinar'' else tags);
          tags = (if str_includes lower ''interview'' then push tags ''interview'' else tags);
          tags = (case yearMatch filename of Some y \<Rightarrow> push tags y | None \<Rightarrow> tags);
          tags = (if str_includes lower ''4k'' then push tags ''4K'' else tags);
          tags = (if str_includes lower ''1080p'' \<or> str_includes lower ''hd''
                  then push tags ''HD'' else tags);
          tags = (if str_includes lower ''final'' then push tags ''final'' else tags);
          tags = (if str_includes lower ''draft'' then push tags ''draft'' else tags)
      in if length tags > 0 then tags else [''untagged''])"

text \<open>
  The array \<open>tags\<close> as it stands at the return statement, written as one concatenation
  (\<open>generateAutoTags_pushed\<close> below relates it to the function).
\<close>

definition pushedTags :: "(string \<Rightarrow> string) \<Rightarrow> string \<Rightarrow> string list" where
  "pushedTags toLowerCase f =
     (let l = toLowerCase f in
      (if str_includes l ''tutorial'' \<or> str_includes l ''how-to'' then [''tutorial''] else []) @
      (if str_includes l ''meeting'' \<or> str_includes l ''call'' then [''meeting''] else []) @
      (if str_includes l ''presentation'' \<or> str_includes l ''demo''
       then [''presentation''] else []) @
      (if str_includes l ''screen'' \<or> str_includes l ''recording''
       then [''screen-recording''] else []) @
      (if str_includes l ''webinar'' then [''webinar''] else []) @
      (if str_includes l ''interview'' then [''interview''] else []) @
      (case yearMatch f of Some y \<Rightarrow> [y] | None \<Rightarrow> []) @
      (if str_includes l ''4k'' then [''4K''] else []) @
      (if str_includes l ''1080p'' \<or> str_includes l ''hd'' then [''HD''] else []) @
      (if str_includes l ''final'' then [''final''] else []) @
      (if str_includes l ''draft'' then [''draft''] else []))"

subsection \<open>The rules as the specification words them\<close>

text \<open>
  \<open>spec_keyword_rules\<close> is the table of keyword rules, \<open>spec_first_year\<close> the year
  rule: the four characters at the leftmost position where "20" and two digits stand.
  \<open>spec_fired\<close> is the set of labels of the rules that fire: a keyword rule fires when
  the file name, put in lower case, contains one of its keywords.

  \<open>ci_contains s q\<close> says that some substring of \<open>s\<close> equals \<open>q\<close> up to the case of the
  letters A to Z, and \<open>spec_fired_ci\<close> is the set of labels when the rules are read with
  it.
\<close>

definition is_year :: "string \<Rightarrow> bool" where
  "is_year y = (\<exists>c d. y = [CHR ''2'', CHR ''0'', c, d] \<and> isDigit c \<and> isDigit d)"

definition spec_first_year :: "string \<Rightarrow> string \<Rightarrow> bool" where
  "spec_first_year s y =
     (\<exists>n. y = take 4 (drop n s) \<and> is_year y \<and> (\<forall>m<n. \<not> is_year (take 4 (drop m s))))"

definition spec_keyword_rules :: "(string list \<times> string) list" where
  "spec_keyword_rules =
     [([''tutorial'', ''how-to''], ''tutorial''),
      ([''meeting'', ''call''], ''meeting''),
      ([''presentation'', ''demo''], ''presentation''),
      ([''screen'', ''recording''], ''screen-recording''),
      ([''webinar''], ''webinar''),
      ([''interview''], ''interview''),
      ([''4k''], ''4K''),
      ([''1080p'', ''hd''], ''HD''),
      ([''final''], ''final''),
      ([''draft''], ''draft'')]"

definition spec_fired :: "(string \<Rightarrow> string) \<Rightarrow> string \<Rightarrow> string set" where
  "spec_fired toLowerCase f =
     {l. \<exists>(kws, l') \<in> set spec_keyword_rules.
           l' = l \<and> (\<exists>k \<in> set kws. sublist k (toLowerCase f))}
     \<union> {y. spec_first_year f y}"

definition ci_contains :: "string \<Rightarrow> string \<Rightarrow> bool" where
  "ci_contains s q = (\<exists>mid. sublist mid s \<and> asciiLower mid = asciiLower q)"

definition spec_fired_ci :: "string \<Rightarrow> string set" where
  "spec_fired_ci f =
     {l. \<exists>(kws, l') \<in> set spec_keyword_rules. l' = l \<and> (\<exists>k \<in> set kws. ci_contains f k)}
     \<union> {y. spec_first_year f y}"

subsection \<open>toLowerCase on a fragment of Unicode\<close>

text \<open>
  For the evaluation of examples beyond ASCII: \<open>jsLowerFragment\<close> is \<open>toLowerCase\<close> on
  text made of ASCII characters, the Greek letters U+0391 to U+03A9 and U+03B1 to
  U+03C9, and the Kelvin sign U+212A. It decodes the bytes to code points (a lead byte
  tells the length of its sequence), maps each code point to its lower case, and
  encodes the result. A capital sigma becomes the
  final sigma U+03C2 when a cased letter precedes it and none follows it, characters
  that case ignores (apostrophe, full stop, colon, circumflex, grave accent) skipped on
  both sides; otherwise it becomes U+03C3. Code points outside the fragment are left as
  they are, which is not what the platform does for all of them: the function is used
  on text of the fragment only.
\<close>

definition seqLength :: "int \<Rightarrow> nat" where
  "seqLength x =
     (if x < 192 then 1 else if x < 224 then 2 else if x < 240 then 3
      else if x < 248 then 4 else 1)"

fun decodePoint :: "int list \<Rightarrow> int" where
  "decodePoint [x] = x"
| "decodePoint [x, b] = (x - 192) * 64 + (b - 128)"
| "decodePoint [x, b, c] = (x - 224) * 4096 + (b - 128) * 64 + (c - 128)"
| "decodePoint [x, b, c, d] =
     (x - 240) * 262144 + (b - 128) * 4096 + (c - 128) * 64 + (d - 128)"
| "decodePoint xs = 0"

function utf8_decode :: "string \<Rightarrow> int list" where
  "utf8_decode [] = []"
| "utf8_decode (a # rest) =
     decodePoint (map of_char (a # take (seqLength (of_char a) - 1) rest))
     # utf8_decode (drop (seqLength (of_char a) - 1) rest)"
  by pat_completeness auto
termination
  by (relation "measure length") simp_all

definition utf8_encode_point :: "int \<Rightarrow> string" where
  "utf8_encode_point c =
     (if c < 128 then [char_of c]
      else if c < 2048 then [char_of (192 + c div 64), char_of (128 + c mod 64)]
      else if c < 65536 then
        [char_of (224 + c div 4096), char_of (128 + c div 64 mod 64), char_of (128 + c mod 64)]
      else [char_of (240 + c div 262144), char_of (128 + c div 4096 mod 64),
            char_of (128 + c div 64 mod 64), char_of (128 + c mod 64)])"

definition utf8_encode :: "int list \<Rightarrow> string" where
  "utf8_encode cs = concat (map utf8_encode_point cs)"

definition lowerCodePoint :: "int \<Rightarrow> int" where
  "lowerCodePoint c =
     (if 65 \<le> c \<and> c \<le> 90 then c + 32
      else if 913 \<le> c \<and> c \<le> 937 \<and> c \<noteq> 930 then c + 32
      else if c = 8490 then 107
      else c)"

definition cased :: "int \<Rightarrow> bool" where
  "cased c =
     ((65 \<le> c \<and> c \<le> 90) \<or> (97 \<le> c \<and> c \<le> 122)
      \<or> (913 \<le> c \<and> c \<le> 937 \<and> c \<noteq> 930) \<or> (945 \<le> c \<and> c \<le> 969) \<or> c = 8490)"

definition caseIgnorable :: "int \<Rightarrow> bool" where
  "caseIgnorable c = (c \<in> set [39, 46, 58, 94, 96])"

primrec followedByCased :: "int list \<Rightarrow> bool" where
  "followedByCased [] = False"
| "followedByCased (c # cs) = (if caseIgnorable c then followedByCased cs else cased c)"

primrec lowerPoints :: "bool \<Rightarrow> int list \<Rightarrow> int list" where
  "lowerPoints prev [] = []"
| "lowerPoints prev (c # cs) =
     (if c = 931 \<and> prev \<and> \<not> followedByCased cs then 962 else lowerCodePoint c)
     # lowerPoints (if caseIgnorable c then prev else cased c) cs"

definition jsLowerFragment :: "string \<Rightarrow> string" where
  "jsLowerFragment s = utf8_encode (lowerPoints False (utf8_decode s))"

section \<open>Duration resolver: getVideoDuration\<close>

text \<open>
  \<open>video.duration\<close> is a number: a finite value, an infinity or NaN. Finite values are
  held as reals. The operations are those the handler uses: division by a positive
  constant, the remainder \<open>%\<close> by a positive constant (the quotient is truncated towards
  zero, so the result has the sign of the dividend; the remainder of an infinity is
  NaN), \<open>Math.floor\<close>, and the text of a number whose value is an integer.

  On finite values the arithmetic is exact. That is the arithmetic of the code for
  durations below 2^53 seconds; beyond, the rounding of double-precision division and
  the digits that \<open>toString\<close> prints (shortest digits, the exponent form from 10^21 on)
  are not modelled.
\<close>

datatype jsnum = Num real | PosInf | NegInf | NaN

definition numDiv :: "jsnum \<Rightarrow> real \<Rightarrow> jsnum" where
  "numDiv x c = (case x of Num a \<Rightarrow> Num (a / c) | PosInf \<Rightarrow> PosInf | NegInf \<Rightarrow> NegInf
     | NaN \<Rightarrow> NaN)"

definition numRem :: "jsnum \<Rightarrow> real \<Rightarrow> jsnum" where
  "numRem x c =
     (case x of
        Num a \<Rightarrow> Num (a - c * of_int (if a / c < 0 then \<lceil>a / c\<rceil> else \<lfloor>a / c\<rfloor>))
      | PosInf \<Rightarrow> NaN | NegInf \<Rightarrow> NaN | NaN \<Rightarrow> NaN)"

definition mathFloor :: "jsnum \<Rightarrow> jsnum" where
  "mathFloor x = (case x of Num a \<Rightarrow> Num (of_int \<lfloor>a\<rfloor>) | PosInf \<Rightarrow> PosInf
     | NegInf \<Rightarrow> NegInf | NaN \<Rightarrow> NaN)"

definition digitChar :: "nat \<Rightarrow> char" where
  "digitChar n = char_of (48 + n)"

function natToString :: "nat \<Rightarrow> string" where
  "natToString n =
     (if n < 10 then [digitChar n] else natToString (n div 10) @ [digitChar (n mod 10)])"
  by pat_completeness auto
termination
  by (relation "measure id") auto

declare natToString.simps [simp del]

definition numToString :: "jsnum \<Rightarrow> string" where
  "numToString x =
     (case x of
        Num a \<Rightarrow> (if \<lfloor>a\<rfloor> < 0 then CHR ''-'' # natToString (nat (- \<lfloor>a\<rfloor>))
                  else natToString (nat \<lfloor>a\<rfloor>))
      | PosInf \<Rightarrow> ''Infinity''
      | NegInf \<Rightarrow> ''-Infinity''
      | NaN \<Rightarrow> ''NaN'')"

definition padStart :: "nat \<Rightarrow> char \<Rightarrow> string \<Rightarrow> string" where
  "padStart targetLength c s = replicate (targetLength - length s) c @ s"

text \<open>
  The two handlers that \<open>getVideoDuration\<close> installs. \<open>onloadedmetadata\<close> takes the
  value of \<open>video.duration\<close>.
\<close>

definition onloadedmetadata :: "jsnum \<Rightarrow> string" where
  "onloadedmetadata dur =
     (let minutes = mathFloor (numDiv dur 60);
          seconds = mathFloor (numRem dur 60)
      in numToString minutes @ '':'' @ padStart 2 (CHR ''0'') (numToString seconds))"

definition onerror :: string where
  "onerror = ''Unknown''"

text \<open>
  The promise. Its executor receives \<open>resolve\<close> only; a settled promise ignores every
  later call. The browser delivers a sequence of events to the video element, and the
  promise starts pending.
\<close>

datatype media_event = LoadedMetadata jsnum | MediaError

datatype 'a promise = Pending | Resolved 'a | Rejected

definition resolve :: "'a \<Rightarrow> 'a promise \<Rightarrow> 'a promise" where
  "resolve v p = (case p of Pending \<Rightarrow> Resolved v | Resolved w \<Rightarrow> Resolved w | Rejected \<Rightarrow> Rejected)"

fun dispatch :: "media_event \<Rightarrow> string promise \<Rightarrow> string promise" where
  "dispatch (LoadedMetadata dur) p = resolve (onloadedmetadata dur) p"
| "dispatch MediaError p = resolve onerror p"

definition getVideoDuration :: "media_event list \<Rightarrow> string promise" where
  "getVideoDuration events = fold dispatch events Pending"

text \<open>
  What the specification says of the text: with \<open>s\<close> the whole seconds, the minutes
  \<open>s div 60\<close> in decimal, a colon, and the two decimal digits of \<open>s mod 60\<close>.
\<close>

definition spec_m_ss :: "nat \<Rightarrow> string" where
  "spec_m_ss s =
     natToString (s div 60) @ '':'' @ [digitChar (s mod 60 div 10), digitChar (s mod 60 mod 10)]"

section \<open>Library store\<close>

text \<open>
  One file of the upload loop: \<open>newVideo\<close> is the object literal built before the
  \<open>await\<close>, from the file, the random identifier, the clock and the object URL;
  \<open>fileUploaded\<close> is the rest of the iteration, which runs once the duration promise
  has resolved: it writes the duration into the new entry and appends the entry.
  \<open>uploadBegin\<close> and \<open>uploadEnd\<close> are what \<open>handleFileUpload\<close> does before and after the
  loop, the latter with the number of files.
\<close>

record File =
  fname :: string
  fsize :: nat
  ftype :: string

definition newVideo ::
  "(string \<Rightarrow> string) \<Rightarrow> File \<Rightarrow> string \<Rightarrow> nat \<Rightarrow> string \<Rightarrow> VideoFile" where
  "newVideo toLowerCase file rid now objUrl =
     \<lparr>vid = rid, vname = fname file, vsize = fsize file, duration = None, uploadDate = now,
      tags = generateAutoTags toLowerCase (fname file), thumbnail = None, url = objUrl,
      vtype = ftype file\<rparr>"

definition fileUploaded :: "VideoFile \<Rightarrow> string \<Rightarrow> app_state \<Rightarrow> app_state" where
  "fileUploaded nv dur st = st\<lparr>videos := videos st @ [nv\<lparr>duration := Some dur\<rparr>]\<rparr>"

definition uploadBegin :: "app_state \<Rightarrow> app_state" where
  "uploadBegin st =
     st\<lparr>isUploading := True, agentMessage := '' Agent: Processing your videos...''\<rparr>"

definition uploadEnd :: "nat \<Rightarrow> app_state \<Rightarrow> app_state" where
  "uploadEnd n st =
     st\<lparr>isUploading := False,
        agentMessage :=
          '' Agent: Successfully added '' @ natToString n @ '' video(s). I'' @ [CHR 0x27] @
          ''ve auto-tagged them and they'' @ [CHR 0x27] @ ''re ready to manage!''\<rparr>"

definition hasId :: "string \<Rightarrow> VideoFile option \<Rightarrow> bool" where
  "hasId i sel = (case sel of Some s \<Rightarrow> vid s = i | None \<Rightarrow> False)"

definition deleteVideo :: "string \<Rightarrow> app_state \<Rightarrow> app_state" where
  "deleteVideo i st =
     (let video = find (\<lambda>v. vid v = i) (videos st);
          st = (case video of Some v \<Rightarrow> st\<lparr>revoked := revoked st @ [url v]\<rparr> | None \<Rightarrow> st);
          st = st\<lparr>videos := filter (\<lambda>v. vid v \<noteq> i) (videos st)\<rparr>;
          st = (if hasId i (selectedVideo st) then st\<lparr>selectedVideo := None\<rparr> else st)
      in st\<lparr>agentMessage := '' Agent: Video removed from your library.''\<rparr>)"

definition addTag :: "string \<Rightarrow> string \<Rightarrow> app_state \<Rightarrow> app_state" where
  "addTag videoId tag st =
     (let st = st\<lparr>videos :=
                 map (\<lambda>v. if vid v = videoId \<and> \<not> (tag \<in> set (tags v))
                          then v\<lparr>tags := tags v @ [tag]\<rparr> else v) (videos st)\<rparr>;
          st = (if hasId videoId (selectedVideo st)
                then st\<lparr>selectedVideo :=
                        map_option (\<lambda>prev. prev\<lparr>tags := tags prev @ [tag]\<rparr>) (selectedVideo st)\<rparr>
                else st)
      in st\<lparr>agentMessage :=
            '' Agent: Added tag '' @ [CHR 0x22] @ tag @ [CHR 0x22] @
            '' to help organize your content.''\<rparr>)"

definition removeTag :: "string \<Rightarrow> string \<Rightarrow> app_state \<Rightarrow> app_state" where
  "removeTag videoId tag st =
     (let st = st\<lparr>videos :=
                 map (\<lambda>v. if vid v = videoId
                          then v\<lparr>tags := filter (\<lambda>t. t \<noteq> tag) (tags v)\<rparr> else v) (videos st)\<rparr>
      in if hasId videoId (selectedVideo st)
         then st\<lparr>selectedVideo :=
                 map_option (\<lambda>prev. prev\<lparr>tags := filter (\<lambda>t. t \<noteq> tag) (tags prev)\<rparr>)
                   (selectedVideo st)\<rparr>
         else st)"

section \<open>Search and suggestion\<close>

definition filteredVideos ::
  "(string \<Rightarrow> string) \<Rightarrow> VideoFile list \<Rightarrow> string \<Rightarrow> VideoFile list" where
  "filteredVideos toLowerCase vs query =
     filter (\<lambda>video.
        str_includes (toLowerCase (vname video)) (toLowerCase query) \<or>
        list_ex (\<lambda>tag. str_includes (toLowerCase tag) (toLowerCase query)) (tags video)) vs"

text \<open>
  \<open>Array.from(new Set(xs))\<close>: a Set keeps its elements in the order of their first
  insertion.
\<close>

definition newSet :: "'a list \<Rightarrow> 'a list" where
  "newSet xs = fold (\<lambda>x s. if x \<in> set s then s else s @ [x]) xs []"

definition suggestTags :: "VideoFile list \<Rightarrow> VideoFile \<Rightarrow> string list" where
  "suggestTags vs video =
     (let allTags = newSet (concat (map tags vs))
      in take 5 (filter (\<lambda>tag. \<not> (tag \<in> set (tags video))) allTags))"

text \<open>
  \<open>first_seen_before xs x y\<close> says that \<open>x\<close> occurs in \<open>xs\<close> before any occurrence of
  \<open>y\<close>.
\<close>

definition first_seen_before :: "'a list \<Rightarrow> 'a \<Rightarrow> 'a \<Rightarrow> bool" where
  "first_seen_before xs x y = (\<exists>pre post. xs = pre @ x # post \<and> y \<notin> set pre \<and> y \<noteq> x)"

section \<open>The component as a transition system\<close>

text \<open>
  The events that change the state: the start of an upload, one file of its loop with
  the duration promise followed to its end, the end of the upload, the three mutations,
  a click on a listed entry, and typing into the search box. A file whose promise stays
  pending appends nothing. A click is possible only on an entry of the filtered list.
\<close>

datatype action =
    UploadBegin
  | Upload File string nat string "media_event list"
  | UploadEnd nat
  | DeleteVideo string
  | AddTag string string
  | RemoveTag string string
  | Select VideoFile
  | Search string

fun step :: "(string \<Rightarrow> string) \<Rightarrow> action \<Rightarrow> app_state \<Rightarrow> app_state" where
  "step toLowerCase UploadBegin st = uploadBegin st"
| "step toLowerCase (Upload file rid now objUrl events) st =
     (case getVideoDuration events of
        Resolved dur \<Rightarrow> fileUploaded (newVideo toLowerCase file rid now objUrl) dur st
      | Pending \<Rightarrow> st
      | Rejected \<Rightarrow> st)"
| "step toLowerCase (UploadEnd n) st = uploadEnd n st"
| "step toLowerCase (DeleteVideo i) st = deleteVideo i st"
| "step toLowerCase (AddTag i tag) st = addTag i tag st"
| "step toLowerCase (RemoveTag i tag) st = removeTag i tag st"
| "step toLowerCase (Select v) st =
     (if v \<in> set (filteredVideos toLowerCase (videos st) (searchQuery st))
      then st\<lparr>selectedVideo := Some v\<rparr> else st)"
| "step toLowerCase (Search q) st = st\<lparr>searchQuery := q\<rparr>"

definition run :: "(string \<Rightarrow> string) \<Rightarrow> action list \<Rightarrow> app_state \<Rightarrow> app_state" where
  "run toLowerCase acts st = fold (step toLowerCase) acts st"

definition reachable :: "(string \<Rightarrow> string) \<Rightarrow> app_state \<Rightarrow> bool" where
  "reachable toLowerCase st = (\<exists>acts. st = run toLowerCase acts initial)"

definition has_untagged :: "string \<Rightarrow> app_state \<Rightarrow> bool" where
  "has_untagged i st = (\<exists>w \<in> set (videos st). vid w = i \<and> ''untagged'' \<in> set (tags w))"

fun gives_untagged :: "string \<Rightarrow> action \<Rightarrow> bool" where
  "gives_untagged i (AddTag j tag) = (j = i \<and> tag = ''untagged'')"
| "gives_untagged i (Upload file rid now objUrl events) = (rid = i)"
| "gives_untagged i a = False"

fun draws_id :: "string \<Rightarrow> action \<Rightarrow> bool" where
  "draws_id i (Upload file rid now objUrl events) = (rid = i)"
| "draws_id i a = False"

section \<open>Properties of the string functions\<close>

lemma str_includes_sublist: "str_includes s t = sublist t s"
  by (induction s) (simp_all add: sublist_Cons_right)

lemma str_includes_lower: "str_includes (asciiLower s) (asciiLower q) = ci_contains s q"
proof
  assume "str_includes (asciiLower s) (asciiLower q)"
  then have "sublist (asciiLower q) (map lowerChar s)"
    by (simp add: str_includes_sublist asciiLower_def)
  then obtain mid where "sublist mid s" "asciiLower q = map lowerChar mid"
    by (blast dest: sublist_map_rightE)
  then show "ci_contains s q"
    unfolding ci_contains_def asciiLower_def by auto
next
  assume "ci_contains s q"
  then obtain mid where m: "sublist mid s" "asciiLower mid = asciiLower q"
    unfolding ci_contains_def by blast
  from m(1) have "sublist (map lowerChar mid) (map lowerChar s)"
    by (rule map_mono_sublist)
  with m(2) show "str_includes (asciiLower s) (asciiLower q)"
    by (simp add: str_includes_sublist asciiLower_def)
qed

lemma yearAt_Some: "(yearAt s = Some y) = (y = take 4 s \<and> is_year y)"
  by (induction s rule: yearAt.induct) (auto simp: is_year_def)

lemma spec_first_year_Nil: "\<not> spec_first_year [] y"
  by (simp add: spec_first_year_def is_year_def)

lemma spec_first_year_Cons:
  "spec_first_year (c # cs) y =
     (if is_year (take 4 (c # cs)) then y = take 4 (c # cs) else spec_first_year cs y)"
proof (cases "is_year (take 4 (c # cs))")
  case True
  have "spec_first_year (c # cs) y = (y = take 4 (c # cs))"
  proof
    assume "spec_first_year (c # cs) y"
    then obtain n where n: "y = take 4 (drop n (c # cs))"
      "\<forall>m<n. \<not> is_year (take 4 (drop m (c # cs)))"
      unfolding spec_first_year_def by blast
    from n(2) True have "n = 0" by (cases n) auto
    with n(1) show "y = take 4 (c # cs)" by simp
  next
    assume "y = take 4 (c # cs)"
    with True show "spec_first_year (c # cs) y"
      unfolding spec_first_year_def by (intro exI[of _ 0]) simp
  qed
  with True show ?thesis by simp
next
  case False
  have "spec_first_year (c # cs) y = spec_first_year cs y"
  proof
    assume "spec_first_year (c # cs) y"
    then obtain n where n: "y = take 4 (drop n (c # cs))" "is_year y"
      "\<forall>m<n. \<not> is_year (take 4 (drop m (c # cs)))"
      unfolding spec_first_year_def by blast
    from n(1,2) False obtain k where k: "n = Suc k" by (cases n) auto
    from n(3) k have "\<forall>m<k. \<not> is_year (take 4 (drop m cs))"
      by (metis Suc_less_eq drop_Suc_Cons)
    with n(1,2) k show "spec_first_year cs y"
      unfolding spec_first_year_def by auto
  next
    assume "spec_first_year cs y"
    then obtain n where n: "y = take 4 (drop n cs)" "is_year y"
      "\<forall>m<n. \<not> is_year (take 4 (drop m cs))"
      unfolding spec_first_year_def by blast
    have "\<forall>m<Suc n. \<not> is_year (take 4 (drop m (c # cs)))"
    proof (intro allI impI)
      fix m assume "m < Suc n"
      then show "\<not> is_year (take 4 (drop m (c # cs)))"
        using False n(3) by (cases m) auto
    qed
    with n(1,2) show "spec_first_year (c # cs) y"
      unfolding spec_first_year_def by (intro exI[of _ "Suc n"]) simp
  qed
  with False show ?thesis by simp
qed

lemma yearMatch_spec: "(yearMatch s = Some y) = spec_first_year s y"
proof (induction s)
  case Nil
  show ?case by (simp add: spec_first_year_Nil)
next
  case (Cons c cs)
  show ?case
  proof (cases "yearAt (c # cs)")
    case None
    then have "\<not> is_year (take 4 (c # cs))"
      using yearAt_Some[of "c # cs" "take 4 (c # cs)"] by simp
    with None Cons show ?thesis
      by (simp add: spec_first_year_Cons)
  next
    case (Some y0)
    then have a: "y0 = take 4 (c # cs)" and b: "is_year y0"
      using yearAt_Some[of "c # cs" y0] by blast+
    from a b have c: "is_year (take 4 (c # cs))" by blast
    have "(yearMatch (c # cs) = Some y) = (y0 = y)"
      using Some by simp
    also have "\<dots> = (y = take 4 (c # cs))"
      using a by blast
    also have "\<dots> = spec_first_year (c # cs) y"
      using c spec_first_year_Cons[of c cs y] by presburger
    finally show ?thesis .
  qed
qed

lemma push_if: "(if c then push ts t else ts) = ts @ (if c then [t] else [])"
  by (simp add: push_def)

lemma push_case:
  "(case m of Some y \<Rightarrow> push ts y | None \<Rightarrow> ts) = ts @ (case m of Some y \<Rightarrow> [y] | None \<Rightarrow> [])"
  by (simp add: push_def split: option.split)

lemma if_neq_swap: "(if a \<noteq> b then x else y) = (if a = b then y else x)"
  by simp

lemma generateAutoTags_pushed:
  "generateAutoTags lc f = (if pushedTags lc f = [] then [''untagged''] else pushedTags lc f)"
  unfolding generateAutoTags_def pushedTags_def Let_def push_if push_case
  by (simp only: append_Nil append_assoc length_greater_0_conv if_neq_swap)

lemma set_rule: "(x \<in> set (if c then [t] else [])) = (t = x \<and> c)"
  by auto

lemma set_year_rule:
  "(x \<in> set (case yearMatch f of Some y \<Rightarrow> [y] | None \<Rightarrow> [])) = spec_first_year f x"
  by (auto simp: yearMatch_spec[symmetric] split: option.split)

lemma kw_lower:
  "asciiLower ''tutorial'' = ''tutorial''" "asciiLower ''how-to'' = ''how-to''"
  "asciiLower ''meeting'' = ''meeting''" "asciiLower ''call'' = ''call''"
  "asciiLower ''presentation'' = ''presentation''" "asciiLower ''demo'' = ''demo''"
  "asciiLower ''screen'' = ''screen''" "asciiLower ''recording'' = ''recording''"
  "asciiLower ''webinar'' = ''webinar''" "asciiLower ''interview'' = ''interview''"
  "asciiLower ''4k'' = ''4k''" "asciiLower ''1080p'' = ''1080p''" "asciiLower ''hd'' = ''hd''"
  "asciiLower ''final'' = ''final''" "asciiLower ''draft'' = ''draft''"
  by (simp_all add: asciiLower_def lowerChar_def)

lemma kw_ci: "asciiLower k = k \<Longrightarrow> sublist k (asciiLower f) = ci_contains f k"
  using str_includes_lower[of f k] by (simp add: str_includes_sublist)

lemma year_rule_last:
  "(a1 \<or> a2 \<or> a3 \<or> a4 \<or> a5 \<or> a6 \<or> y \<or> b1 \<or> b2 \<or> b3 \<or> b4) =
   ((a1 \<or> a2 \<or> a3 \<or> a4 \<or> a5 \<or> a6 \<or> b1 \<or> b2 \<or> b3 \<or> b4) \<or> y)"
  by blast

lemma bex_Cons: "(\<exists>r \<in> set (a # as). P r) = (P a \<or> (\<exists>r \<in> set as. P r))"
  by simp

lemma bex_Nil: "(\<exists>r \<in> set []. P r) = False"
  by simp

lemma in_pushedTags: "(x \<in> set (pushedTags lc f)) = (x \<in> spec_fired lc f)"
  unfolding pushedTags_def Let_def spec_fired_def spec_keyword_rules_def
  apply (simp only: set_append Un_iff set_rule set_year_rule str_includes_sublist
     mem_Collect_eq bex_Cons bex_Nil prod.case simp_thms)
  apply (rule year_rule_last)
  done

lemma set_pushedTags: "set (pushedTags lc f) = spec_fired lc f"
  using in_pushedTags by blast

lemma spec_fired_ascii:
  assumes "lc f = asciiLower f"
  shows "spec_fired lc f = spec_fired_ci f"
proof (rule set_eqI)
  fix x
  show "(x \<in> spec_fired lc f) = (x \<in> spec_fired_ci f)"
    unfolding spec_fired_def spec_fired_ci_def spec_keyword_rules_def assms
    by (simp only: Un_iff mem_Collect_eq bex_Cons bex_Nil prod.case simp_thms
       kw_ci[OF kw_lower(1)] kw_ci[OF kw_lower(2)] kw_ci[OF kw_lower(3)]
       kw_ci[OF kw_lower(4)] kw_ci[OF kw_lower(5)] kw_ci[OF kw_lower(6)]
       kw_ci[OF kw_lower(7)] kw_ci[OF kw_lower(8)] kw_ci[OF kw_lower(9)]
       kw_ci[OF kw_lower(10)] kw_ci[OF kw_lower(11)] kw_ci[OF kw_lower(12)]
       kw_ci[OF kw_lower(13)] kw_ci[OF kw_lower(14)] kw_ci[OF kw_lower(15)])
qed

lemma year_label_length: "spec_first_year f y \<Longrightarrow> length y = 4"
  by (auto simp: spec_first_year_def is_year_def)

lemma subseq_set: "subseq xs ys \<Longrightarrow> set xs \<subseteq> set ys"
  by (induction rule: list_emb.induct) auto

lemma subseq_distinct: "subseq xs ys \<Longrightarrow> distinct ys \<Longrightarrow> distinct xs"
proof (induction rule: list_emb.induct)
  case (list_emb_Nil ys)
  show ?case by simp
next
  case (list_emb_Cons xs ys y)
  then show ?case by simp
next
  case (list_emb_Cons2 x y xs ys)
  then have "set xs \<subseteq> set ys" by (simp add: subseq_set)
  with list_emb_Cons2 show ?case by auto
qed

lemma subseq_rule: "subseq (if c then [t] else []) [t]"
  by simp

lemma subseq_year_rule:
  "subseq (case m of Some y \<Rightarrow> [y] | None \<Rightarrow> []) [case m of Some y \<Rightarrow> y | None \<Rightarrow> []]"
  by (simp split: option.split)

lemma subseq_pushedTags:
  "subseq (pushedTags lc f)
     ([''tutorial''] @ [''meeting''] @ [''presentation''] @ [''screen-recording''] @
      [''webinar''] @ [''interview''] @ [case yearMatch f of Some y \<Rightarrow> y | None \<Rightarrow> []] @
      [''4K''] @ [''HD''] @ [''final''] @ [''draft''])"
  unfolding pushedTags_def Let_def
  by (intro list_emb_append_mono subseq_rule subseq_year_rule)

lemma year_label_not_keyword:
  assumes "length y \<noteq> 2" "length y \<noteq> 5" "length y \<noteq> 7" "length y \<noteq> 8"
    "length y \<noteq> 9" "length y \<noteq> 12" "length y \<noteq> 16"
  shows "distinct [''tutorial'', ''meeting'', ''presentation'', ''screen-recording'',
      ''webinar'', ''interview'', y, ''4K'', ''HD'', ''final'', ''draft'']"
proof -
  have "y \<noteq> ''tutorial''" "y \<noteq> ''meeting''" "y \<noteq> ''presentation''"
    "y \<noteq> ''screen-recording''" "y \<noteq> ''webinar''" "y \<noteq> ''interview''"
    "y \<noteq> ''4K''" "y \<noteq> ''HD''" "y \<noteq> ''final''" "y \<noteq> ''draft''"
    using assms by auto
  then show ?thesis by simp
qed

lemma distinct_pushedTags: "distinct (pushedTags lc f)"
proof -
  have "length (case yearMatch f of Some y \<Rightarrow> y | None \<Rightarrow> []) \<in> {0, 4}"
    using yearMatch_spec[of f] year_label_length[of f]
    by (cases "yearMatch f") auto
  then have "distinct [''tutorial'', ''meeting'', ''presentation'', ''screen-recording'',
      ''webinar'', ''interview'', case yearMatch f of Some y \<Rightarrow> y | None \<Rightarrow> [],
      ''4K'', ''HD'', ''final'', ''draft'']"
    by (intro year_label_not_keyword) auto
  with subseq_pushedTags[of lc f] show ?thesis
    by (simp add: subseq_distinct)
qed

lemma distinct_generateAutoTags: "distinct (generateAutoTags lc f)"
  by (simp add: generateAutoTags_pushed distinct_pushedTags)

lemma fired_from_tags:
  "set ts = (if S = {} then {u} else S) \<Longrightarrow> u \<notin> set ts \<Longrightarrow> S = set ts"
  by (auto split: if_splits)

section \<open>Tag inference\<close>

text \<open>
  C1: for every file name, the empty one included, \<open>generateAutoTags\<close> returns exactly
  the labels of the rules that fire, each once, a keyword rule firing when the file
  name in lower case contains one of its keywords; when no rule fires it returns the
  single label "untagged". This holds whatever \<open>toLowerCase\<close> is. On a file name that
  \<open>toLowerCase\<close> folds as ASCII text, every ASCII file name among them, a keyword rule
  fires exactly when a substring of the name equals a keyword up to the case of letters.
  The function has no failing branch: it gives a list for every string.
\<close>

theorem generateAutoTags_spec:
  "set (generateAutoTags lc f) = (if spec_fired lc f = {} then {''untagged''} else spec_fired lc f)
   \<and> distinct (generateAutoTags lc f)
   \<and> (lc f = asciiLower f \<longrightarrow> spec_fired lc f = spec_fired_ci f)"
proof -
  have e: "(pushedTags lc f = []) = (spec_fired lc f = {})"
    using set_pushedTags[of lc f] by (metis set_empty)
  have a: "set (generateAutoTags lc f) =
      (if spec_fired lc f = {} then {''untagged''} else spec_fired lc f)"
    unfolding generateAutoTags_pushed e by (simp add: set_pushedTags)
  have b: "distinct (generateAutoTags lc f)"
    unfolding generateAutoTags_pushed by (simp add: distinct_pushedTags)
  have c: "lc f = asciiLower f \<longrightarrow> spec_fired lc f = spec_fired_ci f"
    using spec_fired_ascii by blast
  from a b c show ?thesis by (intro conjI)
qed

theorem generateAutoTags_spec_witness:
  "spec_fired_ci ''Team_Meeting_2024_final.mp4'' = {''meeting'', ''2024'', ''final''}
   \<and> generateAutoTags asciiLower ''Team_Meeting_2024_final.mp4'' = [''meeting'', ''2024'', ''final'']
   \<and> spec_fired asciiLower [] = {}
   \<and> generateAutoTags asciiLower [] = [''untagged'']
   \<and> spec_fired jsLowerFragment (''clip_4'' @ [CHR 0xE2, CHR 0x84, CHR 0xAA] @ ''.mov'') = {''4K''}
   \<and> generateAutoTags jsLowerFragment (''clip_4'' @ [CHR 0xE2, CHR 0x84, CHR 0xAA] @ ''.mov'')
       = [''4K'']"
proof -
  let ?k = "''clip_4'' @ [CHR 0xE2, CHR 0x84, CHR 0xAA] @ ''.mov''"
  have a: "generateAutoTags asciiLower ''Team_Meeting_2024_final.mp4''
      = [''meeting'', ''2024'', ''final'']"
    by code_simp
  have b: "generateAutoTags asciiLower [] = [''untagged'']"
    by code_simp
  have k: "generateAutoTags jsLowerFragment ?k = [''4K'']"
    by code_simp
  have n1: "''untagged'' \<notin> set [''meeting'', ''2024'', ''final'']" by simp
  have n2: "''untagged'' \<notin> set [''4K'']" by simp
  have "spec_fired asciiLower ''Team_Meeting_2024_final.mp4''
      = set [''meeting'', ''2024'', ''final'']"
    using generateAutoTags_spec[of asciiLower "''Team_Meeting_2024_final.mp4''",
        THEN conjunct1, unfolded a] n1
    by (rule fired_from_tags)
  moreover have "spec_fired asciiLower ''Team_Meeting_2024_final.mp4''
      = spec_fired_ci ''Team_Meeting_2024_final.mp4''"
    using generateAutoTags_spec[of asciiLower "''Team_Meeting_2024_final.mp4''",
        THEN conjunct2, THEN conjunct2] refl
    by (rule mp)
  ultimately have c: "spec_fired_ci ''Team_Meeting_2024_final.mp4''
      = {''meeting'', ''2024'', ''final''}"
    by simp
  have "pushedTags asciiLower [] = []" by code_simp
  then have d: "spec_fired asciiLower [] = {}"
    using set_pushedTags[of asciiLower "[]"] by simp
  have "spec_fired jsLowerFragment ?k = set [''4K'']"
    using generateAutoTags_spec[of jsLowerFragment ?k, THEN conjunct1, unfolded k] n2
    by (rule fired_from_tags)
  then have e: "spec_fired jsLowerFragment ?k = {''4K''}"
    by simp
  from c a d b e k show ?thesis by (intro conjI)
qed

subsection \<open>The year rule\<close>

lemma not_year_labels:
  "\<not> is_year ''tutorial''" "\<not> is_year ''meeting''" "\<not> is_year ''presentation''"
  "\<not> is_year ''screen-recording''" "\<not> is_year ''webinar''" "\<not> is_year ''interview''"
  "\<not> is_year ''4K''" "\<not> is_year ''HD''" "\<not> is_year ''final''" "\<not> is_year ''draft''"
  "\<not> is_year ''untagged''"
  by (simp_all add: is_year_def)

lemma filter_rule: "\<not> is_year t \<Longrightarrow> filter is_year (if c then [t] else []) = []"
  by simp

lemma filter_year_rule:
  "filter is_year (case yearMatch f of Some y \<Rightarrow> [y] | None \<Rightarrow> []) =
     (case yearMatch f of Some y \<Rightarrow> [y] | None \<Rightarrow> [])"
proof (cases "yearMatch f")
  case None
  then show ?thesis by simp
next
  case (Some y)
  then have "is_year y" using yearMatch_spec[of f y] by (auto simp: spec_first_year_def)
  with Some show ?thesis by simp
qed

lemma filter_year_pushedTags:
  "filter is_year (pushedTags lc f) = (case yearMatch f of Some y \<Rightarrow> [y] | None \<Rightarrow> [])"
  unfolding pushedTags_def Let_def
  by (simp only: filter_append filter_year_rule append_Nil append_Nil2
        filter_rule[OF not_year_labels(1)] filter_rule[OF not_year_labels(2)]
        filter_rule[OF not_year_labels(3)] filter_rule[OF not_year_labels(4)]
        filter_rule[OF not_year_labels(5)] filter_rule[OF not_year_labels(6)]
        filter_rule[OF not_year_labels(7)] filter_rule[OF not_year_labels(8)]
        filter_rule[OF not_year_labels(9)] filter_rule[OF not_year_labels(10)])

lemma filter_year_generateAutoTags:
  "filter is_year (generateAutoTags lc f) = (case yearMatch f of Some y \<Rightarrow> [y] | None \<Rightarrow> [])"
proof (cases "pushedTags lc f = []")
  case True
  then have "filter is_year (pushedTags lc f) = []" by simp
  then have "(case yearMatch f of Some y \<Rightarrow> [y] | None \<Rightarrow> []) = []"
    by (simp add: filter_year_pushedTags)
  with True show ?thesis by (simp add: generateAutoTags_pushed not_year_labels)
next
  case False
  then show ?thesis by (simp add: generateAutoTags_pushed filter_year_pushedTags)
qed

text \<open>
  C5: the labels of \<open>generateAutoTags\<close> that have the shape of a year ("20" and two
  digits) are exactly one, the text at the leftmost such position of the file name,
  when there is such a position, and none otherwise; later positions add nothing:
  "recording_2021_vs_2022.mp4" gets "2021" and not "2022". The year rule reads the file
  name as it is, so this holds whatever \<open>toLowerCase\<close> is.
\<close>

theorem year_rule_first_occurrence:
  "(spec_first_year f y \<longrightarrow> filter is_year (generateAutoTags lc f) = [y])
   \<and> ((\<forall>z. \<not> spec_first_year f z) \<longrightarrow> filter is_year (generateAutoTags lc f) = [])
   \<and> ''2021'' \<in> set (generateAutoTags lc ''recording_2021_vs_2022.mp4'')
   \<and> ''2022'' \<notin> set (generateAutoTags lc ''recording_2021_vs_2022.mp4'')"
proof -
  have a: "spec_first_year f y \<longrightarrow> filter is_year (generateAutoTags lc f) = [y]"
    by (simp add: filter_year_generateAutoTags yearMatch_spec[symmetric])
  have b: "(\<forall>z. \<not> spec_first_year f z) \<longrightarrow> filter is_year (generateAutoTags lc f) = []"
    by (simp add: filter_year_generateAutoTags yearMatch_spec[symmetric])
  have m: "yearMatch ''recording_2021_vs_2022.mp4'' = Some ''2021''"
    by code_simp
  have e: "filter is_year (generateAutoTags lc ''recording_2021_vs_2022.mp4'') = [''2021'']"
    unfolding filter_year_generateAutoTags m by simp
  have "''2021'' \<in> set (filter is_year (generateAutoTags lc ''recording_2021_vs_2022.mp4''))"
    unfolding e by simp
  then have c: "''2021'' \<in> set (generateAutoTags lc ''recording_2021_vs_2022.mp4'')"
    by simp
  have y: "is_year ''2022''"
    by (simp add: is_year_def isDigit_def)
  have d: "''2022'' \<notin> set (generateAutoTags lc ''recording_2021_vs_2022.mp4'')"
  proof
    assume "''2022'' \<in> set (generateAutoTags lc ''recording_2021_vs_2022.mp4'')"
    with y have "''2022'' \<in> set (filter is_year
        (generateAutoTags lc ''recording_2021_vs_2022.mp4''))"
      by simp
    then show False unfolding e by simp
  qed
  from a b c d show ?thesis by (intro conjI)
qed

theorem year_rule_first_occurrence_witness:
  "spec_first_year ''recording_2021_vs_2022.mp4'' ''2021''
   \<and> filter is_year (generateAutoTags asciiLower ''recording_2021_vs_2022.mp4'') = [''2021'']
   \<and> (\<forall>z. \<not> spec_first_year ''random_clip.mov'' z)
   \<and> filter is_year (generateAutoTags asciiLower ''random_clip.mov'') = []"
proof -
  have a: "spec_first_year ''recording_2021_vs_2022.mp4'' ''2021''"
    unfolding yearMatch_spec[symmetric] by code_simp
  have "yearMatch ''random_clip.mov'' = None" by code_simp
  then have b: "\<forall>z. \<not> spec_first_year ''random_clip.mov'' z"
    unfolding yearMatch_spec[symmetric] by simp
  have c: "filter is_year (generateAutoTags asciiLower ''recording_2021_vs_2022.mp4'')
      = [''2021'']"
    using year_rule_first_occurrence[of "''recording_2021_vs_2022.mp4''" "''2021''"
        asciiLower, THEN conjunct1] a
    by (rule mp)
  have d: "filter is_year (generateAutoTags asciiLower ''random_clip.mov'') = []"
    using year_rule_first_occurrence[of "''random_clip.mov''" _ asciiLower, THEN conjunct2,
        THEN conjunct1] b
    by (rule mp)
  from a c b d show ?thesis by (intro conjI)
qed

section \<open>Search\<close>

lemma str_includes_Nil: "str_includes s []"
  by (simp add: str_includes_sublist)

lemma filteredVideos_lowered:
  "filteredVideos lc vs q =
     filter (\<lambda>v. sublist (lc q) (lc (vname v)) \<or> (\<exists>t \<in> set (tags v). sublist (lc q) (lc t))) vs"
  by (simp add: filteredVideos_def str_includes_sublist list_ex_iff)

lemma filteredVideos_empty_query: "lc [] = [] \<Longrightarrow> filteredVideos lc vs [] = vs"
  by (simp add: filteredVideos_def str_includes_Nil)

lemma filteredVideos_subseq: "subseq (filteredVideos lc vs q) vs"
  by (simp add: filteredVideos_def)

lemma filteredVideos_ascii:
  "filteredVideos asciiLower vs q =
     filter (\<lambda>v. ci_contains (vname v) q \<or> (\<exists>t \<in> set (tags v). ci_contains t q)) vs"
  by (simp add: filteredVideos_def str_includes_lower list_ex_iff)

text \<open>
  C2: the claim says that an entry is returned when its name contains the query, the
  case of letters set aside. \<open>filteredVideos\<close> looks for the query in lower case inside
  the name in lower case, and \<open>toLowerCase\<close> lowers a capital sigma by its position: at
  the end of a word it becomes the final sigma U+03C2, elsewhere U+03C3. Take the file
  named U+0391 U+03A3 (capital alpha, capital sigma) followed by " 1.mp4", upload it,
  and type the query U+03A3 (capital sigma). The name contains the query as it is
  written; the name lowers to U+03B1 U+03C2 " 1.mp4", the query to U+03C3, and the
  filtered list is empty.
\<close>

theorem filteredVideos_final_sigma:
  "sublist [CHR 0xCE, CHR 0xA3] ([CHR 0xCE, CHR 0x91, CHR 0xCE, CHR 0xA3] @ '' 1.mp4'')
   \<and> jsLowerFragment ([CHR 0xCE, CHR 0x91, CHR 0xCE, CHR 0xA3] @ '' 1.mp4'')
       = [CHR 0xCE, CHR 0xB1, CHR 0xCF, CHR 0x82] @ '' 1.mp4''
   \<and> jsLowerFragment [CHR 0xCE, CHR 0xA3] = [CHR 0xCF, CHR 0x83]
   \<and> map vname (videos (run jsLowerFragment
         [Upload \<lparr>fname = [CHR 0xCE, CHR 0x91, CHR 0xCE, CHR 0xA3] @ '' 1.mp4'', fsize = 7,
                   ftype = ''video/mp4''\<rparr>
            ''k3j9x2m1q'' 0 ''blob:1'' [LoadedMetadata (Num 61)],
          Search [CHR 0xCE, CHR 0xA3]] initial))
       = [[CHR 0xCE, CHR 0x91, CHR 0xCE, CHR 0xA3] @ '' 1.mp4'']
   \<and> searchQuery (run jsLowerFragment
         [Upload \<lparr>fname = [CHR 0xCE, CHR 0x91, CHR 0xCE, CHR 0xA3] @ '' 1.mp4'', fsize = 7,
                   ftype = ''video/mp4''\<rparr>
            ''k3j9x2m1q'' 0 ''blob:1'' [LoadedMetadata (Num 61)],
          Search [CHR 0xCE, CHR 0xA3]] initial)
       = [CHR 0xCE, CHR 0xA3]
   \<and> filteredVideos jsLowerFragment
       (videos (run jsLowerFragment
         [Upload \<lparr>fname = [CHR 0xCE, CHR 0x91, CHR 0xCE, CHR 0xA3] @ '' 1.mp4'', fsize = 7,
                   ftype = ''video/mp4''\<rparr>
            ''k3j9x2m1q'' 0 ''blob:1'' [LoadedMetadata (Num 61)],
          Search [CHR 0xCE, CHR 0xA3]] initial))
       [CHR 0xCE, CHR 0xA3]
     = []"
proof -
  let ?name = "[CHR 0xCE, CHR 0x91, CHR 0xCE, CHR 0xA3] @ '' 1.mp4''"
  let ?q = "[CHR 0xCE, CHR 0xA3]"
  let ?st = "run jsLowerFragment
         [Upload \<lparr>fname = ?name, fsize = 7, ftype = ''video/mp4''\<rparr>
            ''k3j9x2m1q'' 0 ''blob:1'' [LoadedMetadata (Num 61)],
          Search ?q] initial"
  have a: "sublist ?q ?name"
    by code_simp
  have b: "jsLowerFragment ?name = [CHR 0xCE, CHR 0xB1, CHR 0xCF, CHR 0x82] @ '' 1.mp4''"
    by code_simp
  have c: "jsLowerFragment ?q = [CHR 0xCF, CHR 0x83]"
    by code_simp
  have d: "map vname (videos ?st) = [?name]"
    by code_simp
  have e: "searchQuery ?st = ?q"
    by code_simp
  have f: "filteredVideos jsLowerFragment (videos ?st) ?q = []"
    by code_simp
  from a b c d e f show ?thesis by (intro conjI)
qed

section \<open>Suggestion\<close>

lemma newSet_fold:
  "fold (\<lambda>x s. if x \<in> set s then s else s @ [x]) xs acc =
     acc @ filter (\<lambda>y. y \<notin> set acc) (newSet xs)"
proof (induction xs arbitrary: acc)
  case Nil
  show ?case by (simp add: newSet_def)
next
  case (Cons x xs)
  have n: "newSet (x # xs) = x # filter (\<lambda>y. y \<noteq> x) (newSet xs)"
    using Cons[of "[x]"] by (simp add: newSet_def)
  show ?case
  proof (cases "x \<in> set acc")
    case True
    then have "filter (\<lambda>y. y \<notin> set acc) (newSet (x # xs)) = filter (\<lambda>y. y \<notin> set acc) (newSet xs)"
      unfolding n by (auto intro: filter_cong)
    with True Cons[of acc] show ?thesis by simp
  next
    case False
    then have "filter (\<lambda>y. y \<notin> set acc) (newSet (x # xs)) =
        x # filter (\<lambda>y. y \<notin> set (acc @ [x])) (newSet xs)"
      unfolding n by (auto intro: filter_cong)
    with False Cons[of "acc @ [x]"] show ?thesis by simp
  qed
qed

lemma newSet_Nil: "newSet [] = []"
  by (simp add: newSet_def)

lemma newSet_Cons: "newSet (x # xs) = x # filter (\<lambda>y. y \<noteq> x) (newSet xs)"
  using newSet_fold[of xs "[x]"] by (simp add: newSet_def)

lemma set_newSet: "set (newSet xs) = set xs"
  by (induction xs) (auto simp: newSet_Nil newSet_Cons)

lemma distinct_newSet: "distinct (newSet xs)"
  by (induction xs) (auto simp: newSet_Nil newSet_Cons)

lemma first_seen_before_Cons:
  "first_seen_before xs a b \<Longrightarrow> b \<noteq> x \<Longrightarrow> first_seen_before (x # xs) a b"
proof -
  assume "first_seen_before xs a b" and bx: "b \<noteq> x"
  then obtain pre post where "xs = pre @ a # post" "b \<notin> set pre" "b \<noteq> a"
    unfolding first_seen_before_def by blast
  with bx have "x # xs = (x # pre) @ a # post" "b \<notin> set (x # pre)" "b \<noteq> a"
    by simp_all
  then show ?thesis unfolding first_seen_before_def by blast
qed

lemma first_seen_before_head: "b \<noteq> x \<Longrightarrow> first_seen_before (x # xs) x b"
  unfolding first_seen_before_def by (intro exI[of _ "[]"] exI[of _ xs]) simp

lemma sorted_newSet: "sorted_wrt (first_seen_before xs) (newSet xs)"
proof (induction xs)
  case Nil
  show ?case by (simp add: newSet_Nil)
next
  case (Cons x xs)
  have "sorted_wrt (first_seen_before xs) (filter (\<lambda>y. y \<noteq> x) (newSet xs))"
    using Cons by (rule sorted_wrt_filter)
  then have "sorted_wrt (first_seen_before (x # xs)) (filter (\<lambda>y. y \<noteq> x) (newSet xs))"
    by (rule sorted_wrt_mono_rel[rotated]) (simp add: first_seen_before_Cons)
  then show ?case
    by (simp add: newSet_Cons first_seen_before_head)
qed

lemma suggestTags_candidates:
  "suggestTags vs v =
     take 5 (filter (\<lambda>tag. tag \<notin> set (tags v)) (newSet (concat (map tags vs))))"
  by (simp add: suggestTags_def)

lemma set_candidates:
  "set (filter (\<lambda>tag. tag \<notin> set (tags v)) (newSet (concat (map tags vs)))) =
     (\<Union>e \<in> set vs. set (tags e)) - set (tags v)"
  by (auto simp: set_newSet)

lemma length_candidates:
  "length (filter (\<lambda>tag. tag \<notin> set (tags v)) (newSet (concat (map tags vs)))) =
     card ((\<Union>e \<in> set vs. set (tags e)) - set (tags v))"
proof -
  have "distinct (filter (\<lambda>tag. tag \<notin> set (tags v)) (newSet (concat (map tags vs))))"
    by (simp add: distinct_newSet)
  then show ?thesis
    using set_candidates[of v vs] distinct_card by fastforce
qed

lemma six_labels: "card ({''a'', ''b'', ''c'', ''d'', ''e'', ''f''} - {''a''}) = 5"
  by simp

text \<open>
  C3: for every library and every target entry, \<open>suggestTags\<close> returns labels of the
  library that the target does not have, each once, at most five of them (five, or all
  the candidates when there are fewer), in the order in which the labels are first seen
  across the entries, the candidates left out coming after every one returned. For a
  library whose labels are a, b, c, d, e, f and a target holding a, the result has
  length 5 and does not contain a.
\<close>

theorem suggestTags_spec:
  "set (suggestTags vs v) \<subseteq> (\<Union>e \<in> set vs. set (tags e)) - set (tags v)
   \<and> distinct (suggestTags vs v)
   \<and> length (suggestTags vs v) = min 5 (card ((\<Union>e \<in> set vs. set (tags e)) - set (tags v)))
   \<and> sorted_wrt (first_seen_before (concat (map tags vs))) (suggestTags vs v)
   \<and> (\<forall>c \<in> (\<Union>e \<in> set vs. set (tags e)) - set (tags v) - set (suggestTags vs v).
        \<forall>x \<in> set (suggestTags vs v). first_seen_before (concat (map tags vs)) x c)
   \<and> ((\<Union>e \<in> set vs. set (tags e)) = {''a'', ''b'', ''c'', ''d'', ''e'', ''f''}
        \<and> set (tags v) = {''a''}
        \<longrightarrow> length (suggestTags vs v) = 5 \<and> ''a'' \<notin> set (suggestTags vs v))"
proof -
  define L where "L = filter (\<lambda>tag. tag \<notin> set (tags v)) (newSet (concat (map tags vs)))"
  have r: "suggestTags vs v = take 5 L"
    by (simp add: L_def suggestTags_candidates)
  have setL: "set L = (\<Union>e \<in> set vs. set (tags e)) - set (tags v)"
    unfolding L_def by (rule set_candidates)
  have lenL: "length L = card ((\<Union>e \<in> set vs. set (tags e)) - set (tags v))"
    unfolding L_def by (rule length_candidates)
  have dL: "distinct L"
    by (simp add: L_def distinct_newSet)
  have sL: "sorted_wrt (first_seen_before (concat (map tags vs))) L"
    unfolding L_def by (intro sorted_wrt_filter sorted_newSet)
  have a: "set (suggestTags vs v) \<subseteq> (\<Union>e \<in> set vs. set (tags e)) - set (tags v)"
    unfolding r setL[symmetric] by (rule set_take_subset)
  have b: "distinct (suggestTags vs v)"
    unfolding r using dL by simp
  have c: "length (suggestTags vs v) =
      min 5 (card ((\<Union>e \<in> set vs. set (tags e)) - set (tags v)))"
    unfolding r lenL[symmetric] by simp
  have d: "sorted_wrt (first_seen_before (concat (map tags vs))) (suggestTags vs v)"
    unfolding r using sL by (rule sorted_wrt_take)
  have e: "\<forall>c \<in> (\<Union>e \<in> set vs. set (tags e)) - set (tags v) - set (suggestTags vs v).
        \<forall>x \<in> set (suggestTags vs v). first_seen_before (concat (map tags vs)) x c"
  proof (intro ballI)
    fix c x
    assume c: "c \<in> (\<Union>e \<in> set vs. set (tags e)) - set (tags v) - set (suggestTags vs v)"
      and x: "x \<in> set (suggestTags vs v)"
    have "set L = set (take 5 L) \<union> set (drop 5 L)"
      by (metis append_take_drop_id set_append)
    with c have cd: "c \<in> set (drop 5 L)"
      using setL r by auto
    from sL have "sorted_wrt (first_seen_before (concat (map tags vs))) (take 5 L @ drop 5 L)"
      by simp
    then have "\<forall>x \<in> set (take 5 L). \<forall>y \<in> set (drop 5 L).
        first_seen_before (concat (map tags vs)) x y"
      unfolding sorted_wrt_append by blast
    with x cd show "first_seen_before (concat (map tags vs)) x c"
      unfolding r by blast
  qed
  have f: "(\<Union>e \<in> set vs. set (tags e)) = {''a'', ''b'', ''c'', ''d'', ''e'', ''f''}
        \<and> set (tags v) = {''a''}
        \<longrightarrow> length (suggestTags vs v) = 5 \<and> ''a'' \<notin> set (suggestTags vs v)"
  proof (intro impI, elim conjE)
    assume all: "(\<Union>e \<in> set vs. set (tags e)) = {''a'', ''b'', ''c'', ''d'', ''e'', ''f''}"
      and tv: "set (tags v) = {''a''}"
    have "length (suggestTags vs v) = 5"
      unfolding c all tv six_labels by simp
    moreover have "''a'' \<notin> set (suggestTags vs v)"
      using a tv by blast
    ultimately show "length (suggestTags vs v) = 5 \<and> ''a'' \<notin> set (suggestTags vs v)"
      by (intro conjI)
  qed
  from a b c d e f show ?thesis by (intro conjI)
qed

theorem suggestTags_spec_witness:
  "suggestTags
     [\<lparr>vid = ''1'', vname = ''n1'', vsize = 1, duration = None, uploadDate = 0,
        tags = [''a'', ''b'', ''c''], thumbnail = None, url = ''u1'', vtype = ''t''\<rparr>,
      \<lparr>vid = ''2'', vname = ''n2'', vsize = 2, duration = None, uploadDate = 0,
        tags = [''c'', ''d'', ''a'', ''e'', ''f''], thumbnail = None, url = ''u2'', vtype = ''t''\<rparr>]
     \<lparr>vid = ''1'', vname = ''n1'', vsize = 1, duration = None, uploadDate = 0,
        tags = [''a''], thumbnail = None, url = ''u1'', vtype = ''t''\<rparr>
     = [''b'', ''c'', ''d'', ''e'', ''f'']
   \<and> length (suggestTags
     [\<lparr>vid = ''1'', vname = ''n1'', vsize = 1, duration = None, uploadDate = 0,
        tags = [''a'', ''b'', ''c''], thumbnail = None, url = ''u1'', vtype = ''t''\<rparr>,
      \<lparr>vid = ''2'', vname = ''n2'', vsize = 2, duration = None, uploadDate = 0,
        tags = [''c'', ''d'', ''a'', ''e'', ''f''], thumbnail = None, url = ''u2'', vtype = ''t''\<rparr>]
     \<lparr>vid = ''1'', vname = ''n1'', vsize = 1, duration = None, uploadDate = 0,
        tags = [''a''], thumbnail = None, url = ''u1'', vtype = ''t''\<rparr>) = 5"
proof -
  let ?vs = "[\<lparr>vid = ''1'', vname = ''n1'', vsize = 1, duration = None, uploadDate = 0,
        tags = [''a'', ''b'', ''c''], thumbnail = None, url = ''u1'', vtype = ''t''\<rparr>,
      \<lparr>vid = ''2'', vname = ''n2'', vsize = 2, duration = None, uploadDate = 0,
        tags = [''c'', ''d'', ''a'', ''e'', ''f''], thumbnail = None, url = ''u2'', vtype = ''t''\<rparr>]"
  let ?v = "\<lparr>vid = ''1'', vname = ''n1'', vsize = 1, duration = None, uploadDate = 0,
        tags = [''a''], thumbnail = None, url = ''u1'', vtype = ''t''\<rparr>"
  have h: "(\<Union>e \<in> set ?vs. set (tags e)) = {''a'', ''b'', ''c'', ''d'', ''e'', ''f''}
      \<and> set (tags ?v) = {''a''}"
    by auto
  have l: "length (suggestTags ?vs ?v) = 5"
    using suggestTags_spec[of ?vs ?v] h by blast
  have e: "suggestTags ?vs ?v = [''b'', ''c'', ''d'', ''e'', ''f'']"
    by code_simp
  from e l show ?thesis by (intro conjI)
qed

section \<open>Duration resolver\<close>

lemma digitChar_0: "digitChar 0 = CHR ''0''"
  by code_simp

lemma natToString_small: "n < 10 \<Longrightarrow> natToString n = [digitChar n]"
  by (subst natToString.simps) simp

lemma natToString_two: "10 \<le> n \<Longrightarrow> n < 100 \<Longrightarrow> natToString n = [digitChar (n div 10), digitChar (n mod 10)]"
  by (subst natToString.simps) (simp add: natToString_small)

lemma padStart_seconds:
  "n < 60 \<Longrightarrow> padStart 2 (CHR ''0'') (natToString n) = [digitChar (n div 10), digitChar (n mod 10)]"
proof (cases "n < 10")
  case True
  then show ?thesis by (simp add: padStart_def natToString_small digitChar_0)
next
  case False
  assume "n < 60"
  with False show ?thesis by (simp add: padStart_def natToString_two)
qed

lemma minutes_floor:
  "0 \<le> d \<Longrightarrow> mathFloor (numDiv (Num d) 60) = Num (real (nat \<lfloor>d\<rfloor> div 60))"
proof -
  assume d: "0 \<le> d"
  have q: "\<lfloor>d / 60\<rfloor> = \<lfloor>d\<rfloor> div 60"
    using floor_divide_real_eq_div[of 60 d] by simp
  have nn: "0 \<le> \<lfloor>d\<rfloor>" using d by simp
  have e: "\<lfloor>d\<rfloor> div 60 = int (nat \<lfloor>d\<rfloor> div 60)"
    using nn by (simp add: zdiv_int)
  have "mathFloor (numDiv (Num d) 60) = Num (of_int (\<lfloor>d\<rfloor> div 60))"
    by (simp add: mathFloor_def numDiv_def q)
  then show ?thesis unfolding e by simp
qed

lemma seconds_floor:
  "0 \<le> d \<Longrightarrow> mathFloor (numRem (Num d) 60) = Num (real (nat \<lfloor>d\<rfloor> mod 60))"
proof -
  assume d: "0 \<le> d"
  have q: "\<lfloor>d / 60\<rfloor> = \<lfloor>d\<rfloor> div 60"
    using floor_divide_real_eq_div[of 60 d] by simp
  have nn: "0 \<le> \<lfloor>d\<rfloor>" using d by simp
  from d have "\<not> d / 60 < 0" by simp
  then have r: "numRem (Num d) 60 = Num (d - of_int (60 * \<lfloor>d / 60\<rfloor>))"
    by (simp add: numRem_def)
  have "\<lfloor>d - of_int (60 * \<lfloor>d / 60\<rfloor>)\<rfloor> = \<lfloor>d\<rfloor> - 60 * (\<lfloor>d\<rfloor> div 60)"
    unfolding q by (simp only: floor_diff_of_int)
  also have "\<dots> = \<lfloor>d\<rfloor> mod 60"
    by (simp add: minus_mult_div_eq_mod)
  also have "\<dots> = int (nat \<lfloor>d\<rfloor> mod 60)"
    using nn by (simp add: zmod_int)
  finally have f: "\<lfloor>d - of_int (60 * \<lfloor>d / 60\<rfloor>)\<rfloor> = int (nat \<lfloor>d\<rfloor> mod 60)" .
  have "mathFloor (numRem (Num d) 60) = Num (of_int \<lfloor>d - of_int (60 * \<lfloor>d / 60\<rfloor>)\<rfloor>)"
    unfolding r by (simp add: mathFloor_def)
  then show ?thesis unfolding f by simp
qed

lemma numToString_nat: "numToString (Num (real n)) = natToString n"
  by (simp add: numToString_def)

lemma onloadedmetadata_finite:
  "0 \<le> d \<Longrightarrow> d < 2 ^ 53 \<Longrightarrow> onloadedmetadata (Num d) = spec_m_ss (nat \<lfloor>d\<rfloor>)"
  by (simp add: onloadedmetadata_def Let_def minutes_floor seconds_floor numToString_nat
      spec_m_ss_def padStart_seconds)

lemma resolve_settled: "fold dispatch events (Resolved s) = Resolved s"
proof (induction events)
  case Nil
  show ?case by simp
next
  case (Cons e events)
  have "dispatch e (Resolved s) = Resolved s"
    by (cases e) (simp_all add: resolve_def)
  with Cons show ?case by simp
qed

lemma getVideoDuration_first:
  "getVideoDuration (LoadedMetadata d # events) = Resolved (onloadedmetadata d)"
  "getVideoDuration (MediaError # events) = Resolved onerror"
  by (simp_all add: getVideoDuration_def resolve_def resolve_settled)

lemma getVideoDuration_Nil: "getVideoDuration [] = Pending"
  by (simp add: getVideoDuration_def)

lemma duration_finite:
  "0 \<le> d \<Longrightarrow> d < 2 ^ 53 \<Longrightarrow>
   getVideoDuration (LoadedMetadata (Num d) # events) = Resolved (spec_m_ss (nat \<lfloor>d\<rfloor>))"
  by (simp add: getVideoDuration_first onloadedmetadata_finite)

lemma duration_examples:
  "getVideoDuration [LoadedMetadata (Num (654 / 10))] = Resolved ''1:05''"
  "getVideoDuration [LoadedMetadata (Num 5)] = Resolved ''0:05''"
  "getVideoDuration [LoadedMetadata (Num (1259 / 10))] = Resolved ''2:05''"
  "getVideoDuration [LoadedMetadata (Num 3600)] = Resolved ''60:00''"
  by code_simp+

text \<open>
  C6: the claim says that a successful metadata load gives the text M:SS: the minutes,
  a colon, the seconds on two digits. For a finite duration that is what the handler
  gives (\<open>duration_finite\<close>, \<open>duration_examples\<close>). The handler does not test that
  the duration is finite. When the metadata loads with the duration Infinity, as it
  does for a recording that carries no duration, the quotient by 60 is Infinity and the
  remainder is NaN, and the promise resolves to the text "Infinity:NaN", which the
  upload loop then stores as the duration of the entry.
\<close>

theorem duration_infinity:
  "getVideoDuration [LoadedMetadata PosInf] = Resolved ''Infinity:NaN''
   \<and> map duration (videos (run asciiLower
         [Upload \<lparr>fname = ''capture.webm'', fsize = 7, ftype = ''video/webm''\<rparr>
            ''k3j9x2m1q'' 0 ''blob:1'' [LoadedMetadata PosInf]] initial))
       = [Some ''Infinity:NaN'']"
proof -
  have a: "getVideoDuration [LoadedMetadata PosInf] = Resolved ''Infinity:NaN''"
    by code_simp
  have b: "map duration (videos (run asciiLower
         [Upload \<lparr>fname = ''capture.webm'', fsize = 7, ftype = ''video/webm''\<rparr>
            ''k3j9x2m1q'' 0 ''blob:1'' [LoadedMetadata PosInf]] initial))
       = [Some ''Infinity:NaN'']"
    by code_simp
  from a b show ?thesis by (intro conjI)
qed

text \<open>
  C7: whatever events the video element receives, the promise of \<open>getVideoDuration\<close> is
  never rejected; as soon as one event has arrived it is resolved, and when the first
  event is a load error it is resolved to the text "Unknown". It is pending exactly as
  long as no event has arrived.
\<close>

theorem getVideoDuration_never_rejects:
  "getVideoDuration events \<noteq> Rejected
   \<and> (events \<noteq> [] \<longrightarrow> (\<exists>s. getVideoDuration events = Resolved s))
   \<and> getVideoDuration (MediaError # events) = Resolved ''Unknown''
   \<and> (getVideoDuration events = Pending) = (events = [])"
proof (cases events)
  case Nil
  then show ?thesis
    by (simp add: getVideoDuration_Nil getVideoDuration_first onerror_def)
next
  case (Cons e es)
  then show ?thesis
    by (cases e) (simp_all add: getVideoDuration_first onerror_def)
qed

theorem getVideoDuration_never_rejects_witness:
  "[MediaError, LoadedMetadata (Num 3)] \<noteq> []
   \<and> getVideoDuration [MediaError, LoadedMetadata (Num 3)] = Resolved ''Unknown''"
  using getVideoDuration_never_rejects[of "[LoadedMetadata (Num 3)]"]
  by simp

section \<open>Library store\<close>

lemma find_absent: "i \<notin> vid ` set vs \<Longrightarrow> find (\<lambda>v. vid v = i) vs = None"
  by (induction vs) auto

lemma filter_absent: "i \<notin> vid ` set vs \<Longrightarrow> filter (\<lambda>v. vid v \<noteq> i) vs = vs"
  by (induction vs) auto

lemma videos_deleteVideo: "videos (deleteVideo i st) = filter (\<lambda>v. vid v \<noteq> i) (videos st)"
  by (simp add: deleteVideo_def Let_def split: option.split)

lemma videos_addTag:
  "videos (addTag i t st) =
     map (\<lambda>v. if vid v = i \<and> t \<notin> set (tags v) then v\<lparr>tags := tags v @ [t]\<rparr> else v) (videos st)"
  by (simp add: addTag_def Let_def)

lemma videos_removeTag:
  "videos (removeTag i t st) =
     map (\<lambda>v. if vid v = i then v\<lparr>tags := filter (\<lambda>u. u \<noteq> t) (tags v)\<rparr> else v) (videos st)"
  by (simp add: removeTag_def Let_def)

lemma videos_fileUploaded:
  "videos (fileUploaded nv d st) = videos st @ [nv\<lparr>duration := Some d\<rparr>]"
  by (simp add: fileUploaded_def)

lemma map_absent:
  "i \<notin> vid ` set vs \<Longrightarrow> map (\<lambda>v. if vid v = i \<and> P v then f v else v) vs = vs"
  by (induction vs) auto

lemma ids_map: "(\<And>v. vid (f v) = vid v) \<Longrightarrow> vid ` set (map f vs) = vid ` set vs"
  by (induction vs) auto

lemma ids_addTag: "vid ` set (videos (addTag j t st)) = vid ` set (videos st)"
  unfolding videos_addTag by (rule ids_map) simp

lemma ids_removeTag: "vid ` set (videos (removeTag j t st)) = vid ` set (videos st)"
  unfolding videos_removeTag by (rule ids_map) simp

section \<open>Reachable states\<close>

lemma videos_step_Upload:
  "videos (step lc (Upload file rid now objUrl events) st) =
     (case getVideoDuration events of
        Resolved dur \<Rightarrow> videos st @ [(newVideo lc file rid now objUrl)\<lparr>duration := Some dur\<rparr>]
      | Pending \<Rightarrow> videos st | Rejected \<Rightarrow> videos st)"
  by (simp add: videos_fileUploaded split: promise.split)

lemma videos_step_UploadBegin: "videos (step lc UploadBegin st) = videos st"
  by (simp add: uploadBegin_def)

lemma videos_step_UploadEnd: "videos (step lc (UploadEnd n) st) = videos st"
  by (simp add: uploadEnd_def)

lemma videos_step_Select: "videos (step lc (Select v) st) = videos st"
  by simp

lemma videos_step_Search: "videos (step lc (Search q) st) = videos st"
  by simp

lemma step_tags_distinct:
  assumes "\<forall>v \<in> set (videos st). distinct (tags v)"
  shows "\<forall>v \<in> set (videos (step lc a st)). distinct (tags v)"
proof (cases a)
  case UploadBegin
  from assms show ?thesis unfolding UploadBegin videos_step_UploadBegin .
next
  case (Upload f0 rid now objUrl events)
  have "distinct (tags ((newVideo lc f0 rid now objUrl)\<lparr>duration := Some dur\<rparr>))" for dur
    by (simp add: newVideo_def distinct_generateAutoTags)
  with assms show ?thesis
    unfolding Upload videos_step_Upload by (auto split: promise.split)
next
  case (UploadEnd n)
  from assms show ?thesis unfolding UploadEnd videos_step_UploadEnd .
next
  case (DeleteVideo i)
  with assms show ?thesis by (simp add: videos_deleteVideo)
next
  case (AddTag i t)
  with assms show ?thesis by (auto simp: videos_addTag)
next
  case (RemoveTag i t)
  with assms show ?thesis by (auto simp: videos_removeTag)
next
  case (Select v)
  from assms show ?thesis unfolding Select videos_step_Select .
next
  case (Search q)
  from assms show ?thesis unfolding Search videos_step_Search .
qed

lemma run_tags_distinct:
  "\<forall>v \<in> set (videos st). distinct (tags v) \<Longrightarrow>
   \<forall>v \<in> set (videos (run lc acts st)). distinct (tags v)"
proof (induction acts arbitrary: st)
  case Nil
  then show ?case by (simp add: run_def)
next
  case (Cons a acts)
  from Cons.prems have "\<forall>v \<in> set (videos (step lc a st)). distinct (tags v)"
    by (rule step_tags_distinct)
  then have "\<forall>v \<in> set (videos (run lc acts (step lc a st))). distinct (tags v)"
    by (rule Cons.IH)
  then show ?case by (simp add: run_def)
qed

lemma reachable_tags_distinct:
  "reachable lc st \<Longrightarrow> \<forall>v \<in> set (videos st). distinct (tags v)"
proof -
  assume "reachable lc st"
  then obtain acts where "st = run lc acts initial" unfolding reachable_def by blast
  moreover have "\<forall>v \<in> set (videos initial). distinct (tags v)"
    by (simp add: initial_def)
  ultimately show ?thesis using run_tags_distinct by blast
qed

lemma step_has_duration:
  assumes "\<forall>v \<in> set (videos st). duration v \<noteq> None"
  shows "\<forall>v \<in> set (videos (step lc a st)). duration v \<noteq> None"
proof (cases a)
  case UploadBegin
  from assms show ?thesis unfolding UploadBegin videos_step_UploadBegin .
next
  case (Upload f0 rid now objUrl events)
  with assms show ?thesis
    unfolding Upload videos_step_Upload by (auto split: promise.split)
next
  case (UploadEnd n)
  from assms show ?thesis unfolding UploadEnd videos_step_UploadEnd .
next
  case (DeleteVideo i)
  with assms show ?thesis by (simp add: videos_deleteVideo)
next
  case (AddTag i t)
  with assms show ?thesis by (auto simp: videos_addTag)
next
  case (RemoveTag i t)
  with assms show ?thesis by (auto simp: videos_removeTag)
next
  case (Select v)
  from assms show ?thesis unfolding Select videos_step_Select .
next
  case (Search q)
  from assms show ?thesis unfolding Search videos_step_Search .
qed

lemma run_has_duration:
  "\<forall>v \<in> set (videos st). duration v \<noteq> None \<Longrightarrow>
   \<forall>v \<in> set (videos (run lc acts st)). duration v \<noteq> None"
proof (induction acts arbitrary: st)
  case Nil
  then show ?case by (simp add: run_def)
next
  case (Cons a acts)
  from Cons.prems have "\<forall>v \<in> set (videos (step lc a st)). duration v \<noteq> None"
    by (rule step_has_duration)
  then have "\<forall>v \<in> set (videos (run lc acts (step lc a st))). duration v \<noteq> None"
    by (rule Cons.IH)
  then show ?case by (simp add: run_def)
qed

lemma reachable_has_duration:
  "reachable lc st \<Longrightarrow> \<forall>v \<in> set (videos st). duration v \<noteq> None"
proof -
  assume "reachable lc st"
  then obtain acts where "st = run lc acts initial" unfolding reachable_def by blast
  moreover have "\<forall>v \<in> set (videos initial). duration v \<noteq> None"
    by (simp add: initial_def)
  ultimately show ?thesis using run_has_duration by blast
qed

lemma step_absent:
  assumes "\<not> draws_id i a" and "i \<notin> vid ` set (videos st)"
  shows "i \<notin> vid ` set (videos (step lc a st))"
proof (cases a)
  case UploadBegin
  from assms(2) show ?thesis unfolding UploadBegin videos_step_UploadBegin .
next
  case (Upload f0 rid now objUrl events)
  with assms(1) have ne: "rid \<noteq> i" by simp
  have "vid ((newVideo lc f0 rid now objUrl)\<lparr>duration := Some dur\<rparr>) = rid" for dur
    by (simp add: newVideo_def)
  with assms(2) ne show ?thesis
    unfolding Upload videos_step_Upload by (auto split: promise.split)
next
  case (UploadEnd n)
  from assms(2) show ?thesis unfolding UploadEnd videos_step_UploadEnd .
next
  case (DeleteVideo j)
  with assms(2) show ?thesis by (auto simp: videos_deleteVideo)
next
  case (AddTag j t)
  with assms(2) show ?thesis by (simp add: ids_addTag)
next
  case (RemoveTag j t)
  with assms(2) show ?thesis by (simp add: ids_removeTag)
next
  case (Select v)
  from assms(2) show ?thesis unfolding Select videos_step_Select .
next
  case (Search q)
  from assms(2) show ?thesis unfolding Search videos_step_Search .
qed

lemma run_absent:
  "\<forall>a \<in> set acts. \<not> draws_id i a \<Longrightarrow> i \<notin> vid ` set (videos st) \<Longrightarrow>
   i \<notin> vid ` set (videos (run lc acts st))"
proof (induction acts arbitrary: st)
  case Nil
  then show ?case by (simp add: run_def)
next
  case (Cons a acts)
  from Cons.prems have "i \<notin> vid ` set (videos (step lc a st))"
    by (intro step_absent) simp_all
  with Cons.prems(1) have "i \<notin> vid ` set (videos (run lc acts (step lc a st)))"
    by (intro Cons.IH) simp_all
  then show ?case by (simp add: run_def)
qed

lemma deleteVideo_absent: "i \<notin> vid ` set (videos (deleteVideo i st))"
  by (auto simp: videos_deleteVideo)

lemma count_list_distinct: "distinct xs \<Longrightarrow> x \<in> set xs \<Longrightarrow> count_list xs x = 1"
  by (induction xs) auto

lemma count_list_absent: "x \<notin> set xs \<Longrightarrow> count_list xs x = 0"
  by (induction xs) auto

subsection \<open>Mutations addressed at a missing identifier\<close>

text \<open>
  C4: each mutation that addresses an entry by identifier (\<open>deleteVideo\<close>, \<open>addTag\<close>,
  \<open>removeTag\<close>) leaves the list of entries as it is when no entry has that identifier,
  and \<open>deleteVideo\<close> then revokes no URL; none of them has a failing branch. The code
  has no operation that patches a duration by identifier: a duration reaches the store
  with its entry, in the step of the upload loop that follows the resolved promise, so
  every entry of a reachable store has its duration and none is awaited for it. After
  \<open>deleteVideo\<close> of an identifier the store has no entry with it, and it stays so
  through every later sequence of events, among them the late arrival of the durations
  of other uploads and mutations addressed at the removed identifier, as long as no
  upload draws the same identifier again.
\<close>

theorem missing_id_no_op:
  "(i \<notin> vid ` set (videos st) \<longrightarrow>
      videos (deleteVideo i st) = videos st \<and> revoked (deleteVideo i st) = revoked st
      \<and> videos (addTag i t st) = videos st
      \<and> videos (removeTag i t st) = videos st)
   \<and> i \<notin> vid ` set (videos (deleteVideo i st))
   \<and> (\<forall>acts. (\<forall>a \<in> set acts. \<not> draws_id i a) \<longrightarrow>
         i \<notin> vid ` set (videos (run lc acts (deleteVideo i st))))
   \<and> (reachable lc st \<longrightarrow> (\<forall>v \<in> set (videos st). duration v \<noteq> None))"
proof -
  have a: "i \<notin> vid ` set (videos st) \<longrightarrow> videos (deleteVideo i st) = videos st"
    by (simp add: videos_deleteVideo filter_absent)
  have b: "i \<notin> vid ` set (videos st) \<longrightarrow> revoked (deleteVideo i st) = revoked st"
    by (simp add: deleteVideo_def Let_def find_absent)
  have c: "i \<notin> vid ` set (videos st) \<longrightarrow> videos (addTag i t st) = videos st"
    unfolding videos_addTag using map_absent[of i "videos st" "\<lambda>v. t \<notin> set (tags v)"] by simp
  have d: "i \<notin> vid ` set (videos st) \<longrightarrow> videos (removeTag i t st) = videos st"
    unfolding videos_removeTag using map_absent[of i "videos st" "\<lambda>v. True"] by simp
  have e: "\<forall>acts. (\<forall>a \<in> set acts. \<not> draws_id i a) \<longrightarrow>
         i \<notin> vid ` set (videos (run lc acts (deleteVideo i st)))"
    using run_absent[OF _ deleteVideo_absent] by blast
  have f: "reachable lc st \<longrightarrow> (\<forall>v \<in> set (videos st). duration v \<noteq> None)"
    using reachable_has_duration by blast
  from a b c d deleteVideo_absent[of i st] e f show ?thesis by blast
qed

theorem missing_id_no_op_witness:
  "videos (run asciiLower
      [Upload \<lparr>fname = ''clip.mp4'', fsize = 1024, ftype = ''video/mp4''\<rparr>
         ''k3j9x2m1q'' 0 ''blob:1'' [LoadedMetadata (Num 61)]] initial)
   = [\<lparr>vid = ''k3j9x2m1q'', vname = ''clip.mp4'', vsize = 1024, duration = Some ''1:01'',
        uploadDate = 0, tags = [''untagged''], thumbnail = None, url = ''blob:1'',
        vtype = ''video/mp4''\<rparr>]
   \<and> ''zz'' \<notin> vid ` set (videos (run asciiLower
      [Upload \<lparr>fname = ''clip.mp4'', fsize = 1024, ftype = ''video/mp4''\<rparr>
         ''k3j9x2m1q'' 0 ''blob:1'' [LoadedMetadata (Num 61)]] initial))
   \<and> videos (addTag ''zz'' ''x'' (run asciiLower
      [Upload \<lparr>fname = ''clip.mp4'', fsize = 1024, ftype = ''video/mp4''\<rparr>
         ''k3j9x2m1q'' 0 ''blob:1'' [LoadedMetadata (Num 61)]] initial))
     = videos (run asciiLower
      [Upload \<lparr>fname = ''clip.mp4'', fsize = 1024, ftype = ''video/mp4''\<rparr>
         ''k3j9x2m1q'' 0 ''blob:1'' [LoadedMetadata (Num 61)]] initial)
   \<and> ''k3j9x2m1q'' \<notin> vid ` set (videos (run asciiLower
        [AddTag ''k3j9x2m1q'' ''x'',
         Upload \<lparr>fname = ''demo.mp4'', fsize = 7, ftype = ''video/mp4''\<rparr>
           ''p0o9i8u7y'' 1 ''blob:2'' [LoadedMetadata (Num 150)],
         RemoveTag ''k3j9x2m1q'' ''x'', DeleteVideo ''k3j9x2m1q'']
        (deleteVideo ''k3j9x2m1q'' (run asciiLower
          [Upload \<lparr>fname = ''clip.mp4'', fsize = 1024, ftype = ''video/mp4''\<rparr>
             ''k3j9x2m1q'' 0 ''blob:1'' [LoadedMetadata (Num 61)]] initial))))
   \<and> map duration (videos (run asciiLower
        [AddTag ''k3j9x2m1q'' ''x'',
         Upload \<lparr>fname = ''demo.mp4'', fsize = 7, ftype = ''video/mp4''\<rparr>
           ''p0o9i8u7y'' 1 ''blob:2'' [LoadedMetadata (Num 150)],
         RemoveTag ''k3j9x2m1q'' ''x'', DeleteVideo ''k3j9x2m1q'']
        (deleteVideo ''k3j9x2m1q'' (run asciiLower
          [Upload \<lparr>fname = ''clip.mp4'', fsize = 1024, ftype = ''video/mp4''\<rparr>
             ''k3j9x2m1q'' 0 ''blob:1'' [LoadedMetadata (Num 61)]] initial))))
     = [Some ''2:30'']"
proof -
  let ?st = "run asciiLower
      [Upload \<lparr>fname = ''clip.mp4'', fsize = 1024, ftype = ''video/mp4''\<rparr>
         ''k3j9x2m1q'' 0 ''blob:1'' [LoadedMetadata (Num 61)]] initial"
  let ?acts = "[AddTag ''k3j9x2m1q'' ''x'',
         Upload \<lparr>fname = ''demo.mp4'', fsize = 7, ftype = ''video/mp4''\<rparr>
           ''p0o9i8u7y'' 1 ''blob:2'' [LoadedMetadata (Num 150)],
         RemoveTag ''k3j9x2m1q'' ''x'', DeleteVideo ''k3j9x2m1q'']"
  note t = missing_id_no_op[of "''zz''" ?st "''x''" asciiLower]
  note u = missing_id_no_op[of "''k3j9x2m1q''" ?st "''x''" asciiLower]
  have vs: "videos ?st
   = [\<lparr>vid = ''k3j9x2m1q'', vname = ''clip.mp4'', vsize = 1024, duration = Some ''1:01'',
        uploadDate = 0, tags = [''untagged''], thumbnail = None, url = ''blob:1'',
        vtype = ''video/mp4''\<rparr>]"
    by code_simp
  have h: "''zz'' \<notin> vid ` set (videos ?st)"
    unfolding vs by simp
  have a: "videos (addTag ''zz'' ''x'' ?st) = videos ?st"
    using t[THEN conjunct1, THEN mp, OF h] by (elim conjE)
  have n: "\<forall>a \<in> set ?acts. \<not> draws_id ''k3j9x2m1q'' a"
    by simp
  have b: "''k3j9x2m1q'' \<notin> vid ` set (videos (run asciiLower ?acts
      (deleteVideo ''k3j9x2m1q'' ?st)))"
    using u[THEN conjunct2, THEN conjunct2, THEN conjunct1, THEN spec, THEN mp, OF n] .
  have c: "map duration (videos (run asciiLower ?acts (deleteVideo ''k3j9x2m1q'' ?st)))
      = [Some ''2:30'']"
    by code_simp
  from vs h a b c show ?thesis by (intro conjI)
qed

subsection \<open>Idempotence of addTag\<close>

text \<open>
  C8: \<open>addTag\<close> is idempotent on the store: for every state, identifier and label, the
  list of entries after two calls is the list after one call; and in every state that
  the component can reach, each entry with that identifier then holds the label exactly
  once.
\<close>

theorem addTag_idempotent:
  "videos (addTag i l (addTag i l st)) = videos (addTag i l st)
   \<and> (reachable lc st \<longrightarrow>
        (\<forall>v \<in> set (videos (addTag i l st)). vid v = i \<longrightarrow> count_list (tags v) l = 1))"
proof -
  have a: "videos (addTag i l (addTag i l st)) = videos (addTag i l st)"
    by (simp add: videos_addTag)
  have b: "reachable lc st \<longrightarrow>
        (\<forall>v \<in> set (videos (addTag i l st)). vid v = i \<longrightarrow> count_list (tags v) l = 1)"
  proof (intro impI ballI)
    fix v
    assume r: "reachable lc st" and v: "v \<in> set (videos (addTag i l st))" and i: "vid v = i"
    from v obtain w where w: "w \<in> set (videos st)"
      and vw: "v = (if vid w = i \<and> l \<notin> set (tags w) then w\<lparr>tags := tags w @ [l]\<rparr> else w)"
      unfolding videos_addTag by auto
    from r w have dw: "distinct (tags w)" using reachable_tags_distinct by blast
    show "count_list (tags v) l = 1"
    proof (cases "l \<in> set (tags w)")
      case True
      with vw dw show ?thesis by (simp add: count_list_distinct)
    next
      case False
      with vw i have "tags v = tags w @ [l]" by (auto split: if_splits)
      with False show ?thesis by (simp add: count_list_absent)
    qed
  qed
  from a b show ?thesis by (intro conjI)
qed

theorem addTag_idempotent_witness:
  "reachable asciiLower (run asciiLower [Upload \<lparr>fname = ''demo.mp4'', fsize = 7, ftype = ''video/mp4''\<rparr>
                     ''k3j9x2m1q'' 0 ''blob:1'' [LoadedMetadata (Num 61)]] initial)
   \<and> videos (addTag ''k3j9x2m1q'' ''demo''
        (addTag ''k3j9x2m1q'' ''demo''
          (run asciiLower [Upload \<lparr>fname = ''demo.mp4'', fsize = 7, ftype = ''video/mp4''\<rparr>
                     ''k3j9x2m1q'' 0 ''blob:1'' [LoadedMetadata (Num 61)]] initial)))
     = [\<lparr>vid = ''k3j9x2m1q'', vname = ''demo.mp4'', vsize = 7,
          duration = Some ''1:01'', uploadDate = 0, tags = [''presentation'', ''demo''],
          thumbnail = None, url = ''blob:1'', vtype = ''video/mp4''\<rparr>]
   \<and> count_list [''presentation'', ''demo''] ''demo'' = 1"
proof -
  let ?st = "run asciiLower [Upload \<lparr>fname = ''demo.mp4'', fsize = 7, ftype = ''video/mp4''\<rparr>
                     ''k3j9x2m1q'' 0 ''blob:1'' [LoadedMetadata (Num 61)]] initial"
  let ?e = "\<lparr>vid = ''k3j9x2m1q'', vname = ''demo.mp4'', vsize = 7,
          duration = Some ''1:01'', uploadDate = 0, tags = [''presentation'', ''demo''],
          thumbnail = None, url = ''blob:1'', vtype = ''video/mp4''\<rparr>"
  have r: "reachable asciiLower ?st" unfolding reachable_def by blast
  have c: "\<forall>v \<in> set (videos (addTag ''k3j9x2m1q'' ''demo'' ?st)).
      vid v = ''k3j9x2m1q'' \<longrightarrow> count_list (tags v) ''demo'' = 1"
    using addTag_idempotent[of "''k3j9x2m1q''" "''demo''" ?st, THEN conjunct2] r
    by (rule mp)
  have e: "videos (addTag ''k3j9x2m1q'' ''demo'' ?st) = [?e]"
    by code_simp
  have i: "videos (addTag ''k3j9x2m1q'' ''demo'' (addTag ''k3j9x2m1q'' ''demo'' ?st)) = [?e]"
    unfolding addTag_idempotent[of "''k3j9x2m1q''" "''demo''" ?st, THEN conjunct1]
    by (rule e)
  from c have n: "count_list [''presentation'', ''demo''] ''demo'' = 1"
    unfolding e by simp
  from r i n show ?thesis by (intro conjI)
qed

section \<open>The selected entry\<close>

lemma map_unchanged: "(\<And>v. v \<in> set vs \<Longrightarrow> f v = v) \<Longrightarrow> map f vs = vs"
  by (induction vs) auto

lemma selectedVideo_addTag:
  "selectedVideo (addTag i t st) =
     (if hasId i (selectedVideo st)
      then map_option (\<lambda>prev. prev\<lparr>tags := tags prev @ [t]\<rparr>) (selectedVideo st)
      else selectedVideo st)"
  by (simp add: addTag_def Let_def)

text \<open>
  C10: when \<open>addTag\<close> is called for the selected entry with a label the entry already
  has (the selected copy being the store's entry, the only one with that identifier),
  the store is left as it is, while the selected copy gets the label appended: it now
  holds the label twice and is no longer an entry of the store.
\<close>

theorem addTag_selected_duplicate:
  assumes "selectedVideo st = Some v" and "v \<in> set (videos st)" and "l \<in> set (tags v)"
    and "\<forall>w \<in> set (videos st). vid w = vid v \<longrightarrow> w = v"
  shows "videos (addTag (vid v) l st) = videos st
    \<and> selectedVideo (addTag (vid v) l st) = Some (v\<lparr>tags := tags v @ [l]\<rparr>)
    \<and> \<not> distinct (tags (v\<lparr>tags := tags v @ [l]\<rparr>))
    \<and> v \<in> set (videos (addTag (vid v) l st))
    \<and> v\<lparr>tags := tags v @ [l]\<rparr> \<notin> set (videos (addTag (vid v) l st))"
proof -
  have a: "videos (addTag (vid v) l st) = videos st"
    unfolding videos_addTag using assms(3,4) by (intro map_unchanged) auto
  have b: "selectedVideo (addTag (vid v) l st) = Some (v\<lparr>tags := tags v @ [l]\<rparr>)"
    using assms(1) by (simp add: selectedVideo_addTag hasId_def)
  have c: "\<not> distinct (tags (v\<lparr>tags := tags v @ [l]\<rparr>))"
    using assms(3) by simp
  have d: "v \<in> set (videos (addTag (vid v) l st))"
    unfolding a by (rule assms(2))
  have e: "v\<lparr>tags := tags v @ [l]\<rparr> \<notin> set (videos (addTag (vid v) l st))"
  proof
    assume "v\<lparr>tags := tags v @ [l]\<rparr> \<in> set (videos (addTag (vid v) l st))"
    then have "v\<lparr>tags := tags v @ [l]\<rparr> \<in> set (videos st)" unfolding a .
    with assms(4) have "v\<lparr>tags := tags v @ [l]\<rparr> = v" by simp
    then have "tags (v\<lparr>tags := tags v @ [l]\<rparr>) = tags v" by simp
    then show False by simp
  qed
  from a b c d e show ?thesis by (intro conjI)
qed

theorem addTag_selected_duplicate_witness:
  "selectedVideo
     (run asciiLower [Upload \<lparr>fname = ''demo.mp4'', fsize = 7, ftype = ''video/mp4''\<rparr>
             ''k3j9x2m1q'' 0 ''blob:1'' [LoadedMetadata (Num 61)],
           Select \<lparr>vid = ''k3j9x2m1q'', vname = ''demo.mp4'', vsize = 7,
             duration = Some ''1:01'', uploadDate = 0, tags = [''presentation''],
             thumbnail = None, url = ''blob:1'', vtype = ''video/mp4''\<rparr>] initial)
   = Some \<lparr>vid = ''k3j9x2m1q'', vname = ''demo.mp4'', vsize = 7,
             duration = Some ''1:01'', uploadDate = 0, tags = [''presentation''],
             thumbnail = None, url = ''blob:1'', vtype = ''video/mp4''\<rparr>
   \<and> selectedVideo (addTag ''k3j9x2m1q'' ''presentation''
     (run asciiLower [Upload \<lparr>fname = ''demo.mp4'', fsize = 7, ftype = ''video/mp4''\<rparr>
             ''k3j9x2m1q'' 0 ''blob:1'' [LoadedMetadata (Num 61)],
           Select \<lparr>vid = ''k3j9x2m1q'', vname = ''demo.mp4'', vsize = 7,
             duration = Some ''1:01'', uploadDate = 0, tags = [''presentation''],
             thumbnail = None, url = ''blob:1'', vtype = ''video/mp4''\<rparr>] initial))
   = Some \<lparr>vid = ''k3j9x2m1q'', vname = ''demo.mp4'', vsize = 7,
             duration = Some ''1:01'', uploadDate = 0,
             tags = [''presentation'', ''presentation''],
             thumbnail = None, url = ''blob:1'', vtype = ''video/mp4''\<rparr>
   \<and> videos (addTag ''k3j9x2m1q'' ''presentation''
     (run asciiLower [Upload \<lparr>fname = ''demo.mp4'', fsize = 7, ftype = ''video/mp4''\<rparr>
             ''k3j9x2m1q'' 0 ''blob:1'' [LoadedMetadata (Num 61)],
           Select \<lparr>vid = ''k3j9x2m1q'', vname = ''demo.mp4'', vsize = 7,
             duration = Some ''1:01'', uploadDate = 0, tags = [''presentation''],
             thumbnail = None, url = ''blob:1'', vtype = ''video/mp4''\<rparr>] initial))
   = [\<lparr>vid = ''k3j9x2m1q'', vname = ''demo.mp4'', vsize = 7,
             duration = Some ''1:01'', uploadDate = 0, tags = [''presentation''],
             thumbnail = None, url = ''blob:1'', vtype = ''video/mp4''\<rparr>]"
proof -
  let ?e = "\<lparr>vid = ''k3j9x2m1q'', vname = ''demo.mp4'', vsize = 7,
             duration = Some ''1:01'', uploadDate = 0, tags = [''presentation''],
             thumbnail = None, url = ''blob:1'', vtype = ''video/mp4''\<rparr>"
  let ?st = "run asciiLower [Upload \<lparr>fname = ''demo.mp4'', fsize = 7, ftype = ''video/mp4''\<rparr>
             ''k3j9x2m1q'' 0 ''blob:1'' [LoadedMetadata (Num 61)], Select ?e] initial"
  have h1: "selectedVideo ?st = Some ?e" by code_simp
  have vs: "videos ?st = [?e]" by code_simp
  have h2: "?e \<in> set (videos ?st)" unfolding vs by simp
  have h3: "''presentation'' \<in> set (tags ?e)" by simp
  have h4: "\<forall>w \<in> set (videos ?st). vid w = vid ?e \<longrightarrow> w = ?e" unfolding vs by simp
  have i: "vid ?e = ''k3j9x2m1q''" by simp
  note t = addTag_selected_duplicate[OF h1 h2 h3 h4, unfolded i]
  have a: "selectedVideo (addTag ''k3j9x2m1q'' ''presentation'' ?st)
      = Some (?e\<lparr>tags := [''presentation'', ''presentation'']\<rparr>)"
    using t by simp
  have b: "videos (addTag ''k3j9x2m1q'' ''presentation'' ?st) = [?e]"
    using t vs by simp
  from h1 a b show ?thesis by simp
qed

section \<open>Removing the last label\<close>

lemma step_untagged:
  assumes "\<not> gives_untagged i a" and "has_untagged i (step lc a st)"
  shows "has_untagged i st"
proof (cases a)
  case UploadBegin
  from assms(2) show ?thesis
    unfolding UploadBegin has_untagged_def videos_step_UploadBegin .
next
  case (UploadEnd n)
  from assms(2) show ?thesis
    unfolding UploadEnd has_untagged_def videos_step_UploadEnd .
next
  case (Upload f0 rid now objUrl events)
  with assms(1) have ne: "rid \<noteq> i" by simp
  from assms(2) obtain w where w: "w \<in> set (videos (step lc a st))" "vid w = i"
    "''untagged'' \<in> set (tags w)"
    unfolding has_untagged_def by blast
  have "w \<in> set (videos st)"
  proof (cases "getVideoDuration events")
    case Pending
    with w(1) show ?thesis unfolding Upload videos_step_Upload by simp
  next
    case (Resolved dur)
    with w(1) have "w \<in> set (videos st) \<or> w = (newVideo lc f0 rid now objUrl)\<lparr>duration := Some dur\<rparr>"
      unfolding Upload videos_step_Upload by auto
    moreover have "vid ((newVideo lc f0 rid now objUrl)\<lparr>duration := Some dur\<rparr>) = rid"
      by (simp add: newVideo_def)
    ultimately show ?thesis using w(2) ne by auto
  next
    case Rejected
    with w(1) show ?thesis unfolding Upload videos_step_Upload by simp
  qed
  with w(2,3) show ?thesis unfolding has_untagged_def by blast
next
  case (DeleteVideo j)
  with assms(2) show ?thesis
    by (auto simp: has_untagged_def videos_deleteVideo)
next
  case (AddTag j t)
  with assms(1) have nj: "\<not> (j = i \<and> t = ''untagged'')" by simp
  from assms(2) obtain w where w: "w \<in> set (videos (addTag j t st))" "vid w = i"
    "''untagged'' \<in> set (tags w)"
    unfolding has_untagged_def AddTag by auto
  from w(1) obtain u where u: "u \<in> set (videos st)"
    and wu: "w = (if vid u = j \<and> t \<notin> set (tags u) then u\<lparr>tags := tags u @ [t]\<rparr> else u)"
    unfolding videos_addTag by auto
  from wu w(2) have "vid u = i" by (auto split: if_splits)
  moreover from wu w(2,3) nj have "''untagged'' \<in> set (tags u)" by (auto split: if_splits)
  ultimately show ?thesis using u unfolding has_untagged_def by blast
next
  case (RemoveTag j t)
  from assms(2) obtain w where w: "w \<in> set (videos (removeTag j t st))" "vid w = i"
    "''untagged'' \<in> set (tags w)"
    unfolding has_untagged_def RemoveTag by auto
  from w(1) obtain u where u: "u \<in> set (videos st)"
    and wu: "w = (if vid u = j then u\<lparr>tags := filter (\<lambda>x. x \<noteq> t) (tags u)\<rparr> else u)"
    unfolding videos_removeTag by auto
  from wu w(2) have "vid u = i" by (auto split: if_splits)
  moreover from wu w(3) have "''untagged'' \<in> set (tags u)" by (auto split: if_splits)
  ultimately show ?thesis using u unfolding has_untagged_def by blast
next
  case (Select v)
  from assms(2) show ?thesis
    unfolding Select has_untagged_def videos_step_Select .
next
  case (Search q)
  from assms(2) show ?thesis
    unfolding Search has_untagged_def videos_step_Search .
qed

lemma run_untagged:
  "\<forall>a \<in> set acts. \<not> gives_untagged i a \<Longrightarrow> \<not> has_untagged i st \<Longrightarrow>
   \<not> has_untagged i (run lc acts st)"
proof (induction acts arbitrary: st)
  case Nil
  then show ?case by (simp add: run_def)
next
  case (Cons a acts)
  from Cons.prems have "\<not> has_untagged i (step lc a st)"
    using step_untagged[of i a lc st] by auto
  with Cons.prems(1) have "\<not> has_untagged i (run lc acts (step lc a st))"
    by (intro Cons.IH) simp_all
  then show ?case by (simp add: run_def)
qed

text \<open>
  C9: when an entry (the only one with its identifier) holds the single label \<open>L\<close>,
  \<open>removeTag\<close> of \<open>L\<close> leaves it with no label at all, and nothing puts "untagged"
  back afterwards: after any further uploads of other identifiers, removals, label
  edits, clicks and searches, no entry with that identifier holds "untagged", unless
  \<open>addTag\<close> is called for it with the label "untagged" itself.
\<close>

theorem removeTag_last_label:
  assumes "v \<in> set (videos st)" and "set (tags v) = {L}"
    and "\<forall>w \<in> set (videos st). vid w = vid v \<longrightarrow> w = v"
  shows "v\<lparr>tags := []\<rparr> \<in> set (videos (removeTag (vid v) L st))
    \<and> (\<forall>w \<in> set (videos (removeTag (vid v) L st)). vid w = vid v \<longrightarrow> tags w = [])
    \<and> (\<forall>acts. (\<forall>a \<in> set acts. \<not> gives_untagged (vid v) a) \<longrightarrow>
          \<not> has_untagged (vid v) (run lc acts (removeTag (vid v) L st)))"
proof -
  have e: "filter (\<lambda>x. x \<noteq> L) (tags v) = []"
    using assms(2) by (auto simp: filter_empty_conv)
  have a: "v\<lparr>tags := []\<rparr> \<in> set (videos (removeTag (vid v) L st))"
  proof -
    have "v\<lparr>tags := []\<rparr> =
        (\<lambda>u. if vid u = vid v then u\<lparr>tags := filter (\<lambda>x. x \<noteq> L) (tags u)\<rparr> else u) v"
      by (simp add: e)
    then show ?thesis
      unfolding videos_removeTag set_map using assms(1) by (rule image_eqI)
  qed
  have b: "\<forall>w \<in> set (videos (removeTag (vid v) L st)). vid w = vid v \<longrightarrow> tags w = []"
  proof (intro ballI impI)
    fix w assume w: "w \<in> set (videos (removeTag (vid v) L st))" "vid w = vid v"
    from w(1) obtain u where u: "u \<in> set (videos st)"
      and wu: "w = (if vid u = vid v then u\<lparr>tags := filter (\<lambda>x. x \<noteq> L) (tags u)\<rparr> else u)"
      unfolding videos_removeTag by auto
    from wu w(2) have "vid u = vid v" by (auto split: if_splits)
    with u assms(3) have "u = v" by blast
    with wu e show "tags w = []" by simp
  qed
  have c: "\<forall>acts. (\<forall>a \<in> set acts. \<not> gives_untagged (vid v) a) \<longrightarrow>
          \<not> has_untagged (vid v) (run lc acts (removeTag (vid v) L st))"
  proof (intro allI impI)
    fix acts assume n: "\<forall>a \<in> set acts. \<not> gives_untagged (vid v) a"
    have "\<not> has_untagged (vid v) (removeTag (vid v) L st)"
      using b unfolding has_untagged_def by auto
    with n show "\<not> has_untagged (vid v) (run lc acts (removeTag (vid v) L st))"
      by (rule run_untagged)
  qed
  from a b c show ?thesis by (intro conjI)
qed

theorem removeTag_last_label_witness:
  "videos (run asciiLower [Upload \<lparr>fname = ''demo.mp4'', fsize = 7, ftype = ''video/mp4''\<rparr>
             ''k3j9x2m1q'' 0 ''blob:1'' [LoadedMetadata (Num 61)]] initial)
   = [\<lparr>vid = ''k3j9x2m1q'', vname = ''demo.mp4'', vsize = 7,
             duration = Some ''1:01'', uploadDate = 0, tags = [''presentation''],
             thumbnail = None, url = ''blob:1'', vtype = ''video/mp4''\<rparr>]
   \<and> \<lparr>vid = ''k3j9x2m1q'', vname = ''demo.mp4'', vsize = 7,
             duration = Some ''1:01'', uploadDate = 0, tags = [],
             thumbnail = None, url = ''blob:1'', vtype = ''video/mp4''\<rparr>
       \<in> set (videos (removeTag ''k3j9x2m1q'' ''presentation''
           (run asciiLower [Upload \<lparr>fname = ''demo.mp4'', fsize = 7, ftype = ''video/mp4''\<rparr>
             ''k3j9x2m1q'' 0 ''blob:1'' [LoadedMetadata (Num 61)]] initial)))
   \<and> \<not> has_untagged ''k3j9x2m1q''
        (run asciiLower [AddTag ''k3j9x2m1q'' ''x'', RemoveTag ''k3j9x2m1q'' ''x'', Search ''q'']
          (removeTag ''k3j9x2m1q'' ''presentation''
            (run asciiLower [Upload \<lparr>fname = ''demo.mp4'', fsize = 7, ftype = ''video/mp4''\<rparr>
             ''k3j9x2m1q'' 0 ''blob:1'' [LoadedMetadata (Num 61)]] initial)))"
proof -
  let ?e = "\<lparr>vid = ''k3j9x2m1q'', vname = ''demo.mp4'', vsize = 7,
             duration = Some ''1:01'', uploadDate = 0, tags = [''presentation''],
             thumbnail = None, url = ''blob:1'', vtype = ''video/mp4''\<rparr>"
  let ?st = "run asciiLower [Upload \<lparr>fname = ''demo.mp4'', fsize = 7, ftype = ''video/mp4''\<rparr>
             ''k3j9x2m1q'' 0 ''blob:1'' [LoadedMetadata (Num 61)]] initial"
  have vs: "videos ?st = [?e]" by code_simp
  have h1: "?e \<in> set (videos ?st)" unfolding vs by simp
  have h2: "set (tags ?e) = {''presentation''}" by simp
  have h3: "\<forall>w \<in> set (videos ?st). vid w = vid ?e \<longrightarrow> w = ?e" unfolding vs by simp
  have i: "vid ?e = ''k3j9x2m1q''" by simp
  note t = removeTag_last_label[OF h1 h2 h3, unfolded i]
  have a: "?e\<lparr>tags := []\<rparr> \<in> set (videos (removeTag ''k3j9x2m1q'' ''presentation'' ?st))"
    using t by (rule conjunct1)
  have n: "\<forall>a \<in> set [AddTag ''k3j9x2m1q'' ''x'', RemoveTag ''k3j9x2m1q'' ''x'', Search ''q''].
      \<not> gives_untagged ''k3j9x2m1q'' a"
    by simp
  have b: "\<not> has_untagged ''k3j9x2m1q''
        (run asciiLower [AddTag ''k3j9x2m1q'' ''x'', RemoveTag ''k3j9x2m1q'' ''x'', Search ''q'']
          (removeTag ''k3j9x2m1q'' ''presentation'' ?st))"
    using t[THEN conjunct2, THEN conjunct2, THEN spec, THEN mp, OF n] .
  from a have a': "\<lparr>vid = ''k3j9x2m1q'', vname = ''demo.mp4'', vsize = 7,
             duration = Some ''1:01'', uploadDate = 0, tags = [],
             thumbnail = None, url = ''blob:1'', vtype = ''video/mp4''\<rparr>
       \<in> set (videos (removeTag ''k3j9x2m1q'' ''presentation'' ?st))"
    by simp
  from vs a' b show ?thesis by (intro conjI)
qed


end
